theory Spec2Isabelle
  imports Complex_Main
begin

section \<open>The Analysis Client: \<open>services/geminiService.ts\<close>\<close>

text \<open>
  JavaScript strings are modelled as \<^typ>\<open>string\<close>, holding the UTF-8 bytes of the
  text. The only string test of the source, \<open>includes('429')\<close>, searches for an ASCII
  needle, so it gives the same answer on UTF-8 bytes as on UTF-16 code units.
\<close>

fun str_includes :: "string \<Rightarrow> string \<Rightarrow> bool" where
  "str_includes [] needle = (needle = [])"
| "str_includes (c # cs) needle =
     (take (length needle) (c # cs) = needle \<or> str_includes cs needle)"

text \<open>
  The value caught by \<open>catch (error: any)\<close>: its \<open>message\<close> and \<open>status\<close> properties
  (either may be undefined) and the result of \<open>error.toString()\<close>.
\<close>

datatype JsError =
  JsError (message: "string option") (httpStatus: "int option") (toString: string)

text \<open>
  One \<open>await ai.models.generateContent(...)\<close>: it resolves with a response whose
  \<open>text\<close> may be undefined, or it rejects with an error value.
\<close>

datatype ApiOutcome = Resolves "string option" | Rejects JsError

text \<open>\<open>a || b\<close> on a possibly undefined string: undefined and the empty string are falsy.\<close>

definition js_or :: "string option \<Rightarrow> string \<Rightarrow> string" where
  "js_or a b = (case a of None \<Rightarrow> b | Some s \<Rightarrow> if s = [] then b else s)"

text \<open>The two fallback literals of the source (Chinese text, as UTF-8 bytes).\<close>

definition noDescription :: string where
  "noDescription =
     [CHR 0xE6, CHR 0x97, CHR 0xA0, CHR 0xE6, CHR 0xB3, CHR 0x95, CHR 0xE7, CHR 0x94,
      CHR 0x9F, CHR 0xE6, CHR 0x88, CHR 0x90, CHR 0xE6, CHR 0x8F, CHR 0x8F, CHR 0xE8,
      CHR 0xBF, CHR 0xB0]"

definition analysisFailed :: string where
  "analysisFailed =
     ''AI '' @
     [CHR 0xE5, CHR 0x88, CHR 0x86, CHR 0xE6, CHR 0x9E, CHR 0x90, CHR 0xE5, CHR 0xA4,
      CHR 0xB1, CHR 0xE8, CHR 0xB4, CHR 0xA5, CHR 0xEF, CHR 0xBC, CHR 0x8C, CHR 0xE8,
      CHR 0xAF, CHR 0xB7, CHR 0xE6, CHR 0xA3, CHR 0x80, CHR 0xE6, CHR 0x9F, CHR 0xA5] @
     '' API Key '' @
     [CHR 0xE6, CHR 0x88, CHR 0x96, CHR 0xE7, CHR 0xBD, CHR 0x91, CHR 0xE7, CHR 0xBB,
      CHR 0x9C, CHR 0xE8, CHR 0xBF, CHR 0x9E, CHR 0xE6, CHR 0x8E, CHR 0xA5, CHR 0xE3,
      CHR 0x80, CHR 0x82]"

definition maxRetries :: nat where
  "maxRetries = 3"

text \<open>
  The rate-limit test of the catch block:
  \<open>error.message?.includes('429') || error.status === 429 || error.toString().includes('429')\<close>.
\<close>

definition isRateLimit :: "JsError \<Rightarrow> bool" where
  "isRateLimit error =
     ((case message error of None \<Rightarrow> False | Some m \<Rightarrow> str_includes m ''429'')
      \<or> httpStatus error = Some 429
      \<or> str_includes (toString error) ''429'')"

text \<open>
  The \<open>while (true)\<close> loop of \<open>generateImagePrompt\<close>. The external service is a function
  \<open>api\<close> giving the outcome of the call made when \<open>retries\<close> retries have gone before
  (the loop makes exactly one call per value of \<open>retries\<close>). The loop state is the
  counter \<open>retries\<close> and the list \<open>waited\<close> of the delays awaited so far, in
  milliseconds. The result is \<open>Inr\<close> the returned string or \<open>Inl\<close> the message of the
  thrown \<open>Error\<close>, together with the delays. The request sent (instruction template,
  image payload) does not influence the control flow and is not modelled.
\<close>

function generateImagePrompt_loop ::
  "(nat \<Rightarrow> ApiOutcome) \<Rightarrow> nat \<Rightarrow> nat list \<Rightarrow> (string + string) \<times> nat list" where
  "generateImagePrompt_loop api retries waited =
     (case api retries of
        Resolves text \<Rightarrow> (Inr (js_or text noDescription), waited)
      | Rejects error \<Rightarrow>
          if isRateLimit error \<and> retries < maxRetries
          then generateImagePrompt_loop api (retries + 1)
                 (waited @ [2 ^ (retries + 1) * 1000])
          else (Inl (js_or (message error) analysisFailed), waited))"
  by pat_completeness auto
termination
  by (relation "measure (\<lambda>(api, retries, waited). maxRetries - retries)") auto

definition generateImagePrompt :: "(nat \<Rightarrow> ApiOutcome) \<Rightarrow> (string + string) \<times> nat list" where
  "generateImagePrompt api = generateImagePrompt_loop api 0 []"

text \<open>The number of external calls made: one more than the number of delays.\<close>

definition callsMade :: "(string + string) \<times> nat list \<Rightarrow> nat" where
  "callsMade r = Suc (length (snd r))"

section \<open>The data model: \<open>types.ts\<close>\<close>

datatype ProcessingStatus = PENDING | ANALYZING | COMPLETED | ERROR

text \<open>
  \<open>interface VideoFrame\<close>. The field \<open>id\<close> is named \<open>frame_id\<close> here. Identifiers
  come from \<open>crypto.randomUUID()\<close>, modelled as a supply of fresh identifiers: the
  natural numbers in order. The optional \<open>errorMessage\<close> is absent (\<open>None\<close>) until set.
\<close>

record VideoFrame =
  frame_id :: nat
  timestamp :: int
  imageUrl :: string
  prompt :: "string option"
  status :: ProcessingStatus
  errorMessage :: "string option"

record AnalysisConfig =
  interval :: int
  customInstructions :: string

section \<open>JavaScript numbers\<close>

text \<open>
  The values of \<open>video.duration\<close>, \<open>totalFrames\<close> and \<open>progress\<close> are JavaScript
  numbers: finite values, the two infinities and NaN. Finite values are modelled as
  exact reals (rounding is not modelled), and zero as positive zero: the operands of
  the source are non-negative, so negative zero does not arise.
\<close>

datatype jsnum = Num real | PosInfinity | NegInfinity | NaN

fun js_less :: "jsnum \<Rightarrow> jsnum \<Rightarrow> bool" where
  "js_less (Num a) (Num b) = (a < b)"
| "js_less (Num a) PosInfinity = True"
| "js_less NegInfinity (Num b) = True"
| "js_less NegInfinity PosInfinity = True"
| "js_less _ _ = False"

fun js_div :: "jsnum \<Rightarrow> jsnum \<Rightarrow> jsnum" where
  "js_div (Num a) (Num b) =
     (if b = 0 then (if a = 0 then NaN else if 0 < a then PosInfinity else NegInfinity)
      else Num (a / b))"
| "js_div (Num a) PosInfinity = Num 0"
| "js_div (Num a) NegInfinity = Num 0"
| "js_div PosInfinity (Num b) = (if 0 \<le> b then PosInfinity else NegInfinity)"
| "js_div NegInfinity (Num b) = (if 0 \<le> b then NegInfinity else PosInfinity)"
| "js_div _ _ = NaN"

fun js_mul :: "jsnum \<Rightarrow> jsnum \<Rightarrow> jsnum" where
  "js_mul (Num a) (Num b) = Num (a * b)"
| "js_mul (Num a) PosInfinity =
     (if a = 0 then NaN else if 0 < a then PosInfinity else NegInfinity)"
| "js_mul (Num a) NegInfinity =
     (if a = 0 then NaN else if 0 < a then NegInfinity else PosInfinity)"
| "js_mul PosInfinity (Num b) =
     (if b = 0 then NaN else if 0 < b then PosInfinity else NegInfinity)"
| "js_mul NegInfinity (Num b) =
     (if b = 0 then NaN else if 0 < b then NegInfinity else PosInfinity)"
| "js_mul PosInfinity PosInfinity = PosInfinity"
| "js_mul PosInfinity NegInfinity = NegInfinity"
| "js_mul NegInfinity PosInfinity = NegInfinity"
| "js_mul NegInfinity NegInfinity = PosInfinity"
| "js_mul _ _ = NaN"

fun js_add :: "jsnum \<Rightarrow> jsnum \<Rightarrow> jsnum" where
  "js_add (Num a) (Num b) = Num (a + b)"
| "js_add NaN _ = NaN"
| "js_add _ NaN = NaN"
| "js_add PosInfinity NegInfinity = NaN"
| "js_add NegInfinity PosInfinity = NaN"
| "js_add PosInfinity _ = PosInfinity"
| "js_add _ PosInfinity = PosInfinity"
| "js_add NegInfinity _ = NegInfinity"
| "js_add _ NegInfinity = NegInfinity"

text \<open>\<open>Math.floor\<close>.\<close>

fun js_floor :: "jsnum \<Rightarrow> jsnum" where
  "js_floor (Num a) = Num (of_int \<lfloor>a\<rfloor>)"
| "js_floor x = x"

section \<open>The Pipeline Controller: the \<open>App\<close> component\<close>

text \<open>
  The local variables of one invocation of \<open>startAnalysis\<close> once the metadata has
  loaded. \<open>signal\<close> is the address, in the store of controllers, of the
  \<open>AbortController\<close> that this invocation created; \<open>loopInterval\<close> is the local
  \<open>interval\<close>.
\<close>

record LoopVars =
  signal :: nat
  duration :: jsnum
  loopInterval :: int
  totalFrames :: jsnum
  capturedCount :: int
  time :: int

text \<open>
  An invocation of \<open>startAnalysis\<close> is suspended at one of its two \<open>await\<close>s, or has
  returned. While it waits for \<open>onloadedmetadata\<close> it holds its signal and the
  \<open>config.interval\<close> of its closure.
\<close>

datatype CaptureTask =
    AwaitingMetadata nat int
  | AwaitingSeek LoopVars
  | Finished

text \<open>
  The state of the component: the \<open>useState\<close> cells, the \<open>AbortController\<close> objects
  ever created (\<open>controllers\<close>, their \<open>aborted\<close> flags) with the reference
  \<open>abortControllerRef.current\<close> to one of them, the timeout set by the last run of
  the reconciliation effect together with the frame that its callback holds, the
  invocations of \<open>startAnalysis\<close>, the identifiers of the frames whose
  \<open>processFrame\<close> is waiting for \<open>generateImagePrompt\<close>, and the next fresh identifier.
\<close>

record App =
  videoFile :: "string option"
  videoSrc :: "string option"
  frames :: "VideoFrame list"
  isProcessing :: bool
  progress :: jsnum
  config :: AnalysisConfig
  controllers :: "bool list"
  abortControllerRef :: "nat option"
  timer :: "VideoFrame option"
  tasks :: "CaptureTask list"
  inFlight :: "nat list"
  nextUuid :: nat

definition initApp :: App where
  "initApp =
     \<lparr>videoFile = None, videoSrc = None, frames = [], isProcessing = False,
      progress = Num 0, config = \<lparr>interval = 3, customInstructions = []\<rparr>,
      controllers = [], abortControllerRef = None, timer = None, tasks = [],
      inFlight = [], nextUuid = 0\<rparr>"

text \<open>\<open>signal.aborted\<close> of the controller at address \<open>c\<close>.\<close>

definition aborted :: "App \<Rightarrow> nat \<Rightarrow> bool" where
  "aborted s c = (c < length (controllers s) \<and> controllers s ! c)"

text \<open>\<open>abortControllerRef.current?.signal.aborted\<close>: falsy when the reference is null.\<close>

definition currentAborted :: "App \<Rightarrow> bool" where
  "currentAborted s = (case abortControllerRef s of None \<Rightarrow> False | Some c \<Rightarrow> aborted s c)"

text \<open>\<open>if (abortControllerRef.current) abortControllerRef.current.abort()\<close>.\<close>

definition abortCurrent :: "App \<Rightarrow> bool list" where
  "abortCurrent s =
     (case abortControllerRef s of None \<Rightarrow> controllers s
      | Some c \<Rightarrow> (controllers s)[c := True])"

definition isTerminal :: "VideoFrame \<Rightarrow> bool" where
  "isTerminal f = (status f = COMPLETED \<or> status f = ERROR)"

text \<open>
  The reconciliation effect \<open>useEffect(..., [frames, isProcessing, processFrame])\<close>.
  React runs the cleanup of the previous run (\<open>clearTimeout\<close>) and then the body,
  whenever a dependency has changed. In the \<open>allCompleted\<close> branch the body changes
  \<open>isProcessing\<close>, so the effect runs once more and returns at its first test; that
  second run is included. The callback of \<open>setTimeout\<close> is the event \<open>TimerFired\<close>
  below.
\<close>

definition reconcile :: "App \<Rightarrow> App" where
  "reconcile s0 =
     (let s = s0\<lparr>timer := None\<rparr> in
      if \<not> isProcessing s then s
      else if currentAborted s then s
      else if list_ex (\<lambda>f. status f = ANALYZING) (frames s) then s
      else
        (case find (\<lambda>f. status f = PENDING) (frames s) of
           Some pendingFrame \<Rightarrow> s\<lparr>timer := Some pendingFrame\<rparr>
         | None \<Rightarrow>
             if 0 < length (frames s) \<and> list_all isTerminal (frames s)
             then s\<lparr>isProcessing := False, progress := Num 100\<rparr>
             else if 0 < length (frames s)
             then s\<lparr>progress :=
                      js_add (Num 50)
                        (js_mul (js_div (Num (real (length (filter isTerminal (frames s)))))
                                        (Num (real (length (frames s)))))
                                (Num 50))\<rparr>
             else s))"

definition handleFileSelected :: "string \<Rightarrow> string \<Rightarrow> App \<Rightarrow> App" where
  "handleFileSelected file url s =
     reconcile (s\<lparr>videoFile := Some file, videoSrc := Some url, frames := [],
                  progress := Num 0, isProcessing := False\<rparr>)"

definition reset :: "App \<Rightarrow> App" where
  "reset s =
     reconcile (s\<lparr>videoFile := None, videoSrc := None, frames := [],
                  progress := Num 0, isProcessing := False,
                  controllers := abortCurrent s\<rparr>)"

text \<open>
  \<open>stopAnalysis\<close>. The effect runs again only if \<open>isProcessing\<close> changes.
\<close>

definition stopAnalysis :: "App \<Rightarrow> App" where
  "stopAnalysis s =
     (let s' = s\<lparr>controllers := abortCurrent s, isProcessing := False\<rparr>
      in if isProcessing s then reconcile s' else s')"

text \<open>
  \<open>processFrame\<close>, up to its \<open>await\<close>: the frame with the identifier of the argument
  becomes ANALYZING and the call of \<open>generateImagePrompt\<close> is in flight.
\<close>

definition processFrame :: "VideoFrame \<Rightarrow> App \<Rightarrow> App" where
  "processFrame frame s =
     reconcile (s\<lparr>frames := map (\<lambda>f. if frame_id f = frame_id frame
                                         then f\<lparr>status := ANALYZING\<rparr> else f) (frames s),
                  inFlight := inFlight s @ [frame_id frame]\<rparr>)"

text \<open>
  \<open>processFrame\<close>, after its \<open>await\<close>: \<open>generateImagePrompt\<close> returned a prompt
  (\<open>Inr\<close>) or threw an \<open>Error\<close> with a message (\<open>Inl\<close>).
\<close>

definition processFrame_settled :: "nat \<Rightarrow> string + string \<Rightarrow> App \<Rightarrow> App" where
  "processFrame_settled fid outcome s =
     reconcile (s\<lparr>frames :=
                    (case outcome of
                       Inr p \<Rightarrow>
                         map (\<lambda>f. if frame_id f = fid
                                  then f\<lparr>status := COMPLETED, prompt := Some p\<rparr> else f)
                           (frames s)
                     | Inl m \<Rightarrow>
                         map (\<lambda>f. if frame_id f = fid
                                  then f\<lparr>status := ERROR, errorMessage := Some m\<rparr> else f)
                           (frames s)),
                  inFlight := remove1 fid (inFlight s)\<rparr>)"

text \<open>
  \<open>startAnalysis\<close>, up to its first \<open>await\<close>. \<open>ctx\<close> tells whether
  \<open>canvas.getContext\<close> gave a context; without one the function returns after its
  state updates.
\<close>

definition startAnalysis :: "bool \<Rightarrow> App \<Rightarrow> App" where
  "startAnalysis ctx s =
     (case videoSrc s of
        None \<Rightarrow> s
      | Some src \<Rightarrow>
          (let c = length (controllers s);
               s1 = s\<lparr>isProcessing := True, frames := [], progress := Num 0,
                       controllers := controllers s @ [False],
                       abortControllerRef := Some c\<rparr>
           in reconcile
                (if ctx
                 then s1\<lparr>tasks := tasks s @ [AwaitingMetadata c (interval (config s))]\<rparr>
                 else s1)))"

text \<open>
  The head of the \<open>for\<close> loop, \<open>time < duration\<close>, followed by
  \<open>if (signal.aborted) break\<close>; past both, the loop sets \<open>video.currentTime\<close> and
  awaits the \<open>seeked\<close> event.
\<close>

definition loopHead :: "App \<Rightarrow> LoopVars \<Rightarrow> CaptureTask" where
  "loopHead s v =
     (if js_less (Num (real_of_int (time v))) (duration v)
      then (if aborted s (signal v) then Finished else AwaitingSeek v)
      else Finished)"

text \<open>
  \<open>startAnalysis\<close> from the loading of the metadata, where \<open>video.duration\<close> is \<open>d\<close>,
  to its next \<open>await\<close>.
\<close>

definition startAnalysis_metadata :: "nat \<Rightarrow> jsnum \<Rightarrow> App \<Rightarrow> App" where
  "startAnalysis_metadata k d s =
     (if k < length (tasks s)
      then (case tasks s ! k of
              AwaitingMetadata c cfgInterval \<Rightarrow>
                (let i = max 1 cfgInterval;
                     v = \<lparr>signal = c, duration = d, loopInterval = i,
                          totalFrames = js_floor (js_div d (Num (real_of_int i))),
                          capturedCount = 0, time = 0\<rparr>
                 in s\<lparr>tasks := (tasks s)[k := loopHead s v]\<rparr>)
            | _ \<Rightarrow> s)
      else s)"

text \<open>
  \<open>startAnalysis\<close> from a \<open>seeked\<close> event to its next \<open>await\<close>: the rest of the loop
  body (\<open>img\<close> is what \<open>canvas.toDataURL\<close> returns for the frame drawn), the
  increment \<open>time += interval\<close> and the head of the loop.
\<close>

definition startAnalysis_seeked :: "nat \<Rightarrow> string \<Rightarrow> App \<Rightarrow> App" where
  "startAnalysis_seeked k img s =
     (if k < length (tasks s)
      then (case tasks s ! k of
              AwaitingSeek v \<Rightarrow>
                (let newFrame = \<lparr>frame_id = nextUuid s, timestamp = time v, imageUrl = img,
                                 prompt = None, status = PENDING, errorMessage = None\<rparr>;
                     cc = capturedCount v + 1;
                     s1 = s\<lparr>frames := frames s @ [newFrame],
                             nextUuid := Suc (nextUuid s),
                             progress := js_mul (js_div (Num (real_of_int cc)) (totalFrames v))
                                                (Num 50)\<rparr>;
                     v' = v\<lparr>capturedCount := cc, time := time v + loopInterval v\<rparr>
                 in reconcile (s1\<lparr>tasks := (tasks s)[k := loopHead s1 v']\<rparr>))
            | _ \<Rightarrow> s)
      else s)"

text \<open>
  The \<open>onChange\<close> of the interval input:
  \<open>setConfig({...config, interval: parseInt(e.target.value) || 3})\<close>, where
  \<open>parsed\<close> is \<open>None\<close> when \<open>parseInt\<close> gives NaN.
\<close>

definition intervalChanged :: "int option \<Rightarrow> App \<Rightarrow> App" where
  "intervalChanged parsed s =
     s\<lparr>config := (config s)\<lparr>interval :=
          (case parsed of None \<Rightarrow> 3 | Some n \<Rightarrow> if n = 0 then 3 else n)\<rparr>\<rparr>"

text \<open>
  What can happen to the component: user actions, and the resumption of suspended
  code. \<open>Settled fid api\<close> is the completion of the in-flight call for frame
  \<open>fid\<close>, whose external service behaved as \<open>api\<close>.
\<close>

datatype Event =
    FileSelected string string
  | Reset
  | StartAnalysis bool
  | MetadataLoaded nat jsnum
  | Seeked nat string
  | TimerFired
  | Settled nat "nat \<Rightarrow> ApiOutcome"
  | StopAnalysis
  | IntervalChanged "int option"

fun step :: "Event \<Rightarrow> App \<Rightarrow> App" where
  "step (FileSelected file url) s = handleFileSelected file url s"
| "step Reset s = reset s"
| "step (StartAnalysis ctx) s = startAnalysis ctx s"
| "step (MetadataLoaded k d) s = startAnalysis_metadata k d s"
| "step (Seeked k img) s = startAnalysis_seeked k img s"
| "step TimerFired s =
     (case timer s of None \<Rightarrow> s
      | Some frame \<Rightarrow> processFrame frame (s\<lparr>timer := None\<rparr>))"
| "step (Settled fid api) s =
     (if fid \<in> set (inFlight s)
      then processFrame_settled fid (fst (generateImagePrompt api)) s
      else s)"
| "step StopAnalysis s = stopAnalysis s"
| "step (IntervalChanged parsed) s = intervalChanged parsed s"

definition run :: "Event list \<Rightarrow> App \<Rightarrow> App" where
  "run evs s = foldl (\<lambda>s e. step e s) s evs"

inductive reachable :: "App \<Rightarrow> bool" where
  init: "reachable initApp"
| step: "reachable s \<Longrightarrow> reachable (step e s)"

section \<open>Invariants of the reachable states\<close>

text \<open>
  Frame identifiers are distinct and were all issued already, as are the identifiers
  of the calls in flight; no call is in flight twice; a listed frame whose call is in
  flight is ANALYZING; at most one frame is ANALYZING.
\<close>

definition framesInv :: "VideoFrame list \<Rightarrow> nat list \<Rightarrow> nat \<Rightarrow> bool" where
  "framesInv fs calls n =
     (distinct (map frame_id fs)
      \<and> (\<forall>f \<in> set fs. frame_id f < n)
      \<and> (\<forall>x \<in> set calls. x < n)
      \<and> distinct calls
      \<and> (\<forall>f \<in> set fs. frame_id f \<in> set calls \<longrightarrow> status f = ANALYZING)
      \<and> length (filter (\<lambda>f. status f = ANALYZING) fs) \<le> 1)"

text \<open>
  In addition, a timeout is pending only while no frame is ANALYZING, and the frame
  it holds is the first PENDING frame of the list.
\<close>

definition wellFormed :: "App \<Rightarrow> bool" where
  "wellFormed s =
     (framesInv (frames s) (inFlight s) (nextUuid s)
      \<and> (\<forall>f. timer s = Some f \<longrightarrow>
             \<not> list_ex (\<lambda>f. status f = ANALYZING) (frames s)
             \<and> find (\<lambda>f. status f = PENDING) (frames s) = Some f))"

text \<open>The state machine of a frame: one step forward, or no change.\<close>

definition advances :: "ProcessingStatus \<Rightarrow> ProcessingStatus \<Rightarrow> bool" where
  "advances a b =
     (a = b \<or> (a = PENDING \<and> b = ANALYZING)
      \<or> (a = ANALYZING \<and> (b = COMPLETED \<or> b = ERROR)))"

text \<open>The two updates that \<open>processFrame\<close> maps over the frame list.\<close>

definition markAnalyzing :: "nat \<Rightarrow> VideoFrame \<Rightarrow> VideoFrame" where
  "markAnalyzing x f = (if frame_id f = x then f\<lparr>status := ANALYZING\<rparr> else f)"

definition settle :: "nat \<Rightarrow> string + string \<Rightarrow> VideoFrame \<Rightarrow> VideoFrame" where
  "settle x outcome f =
     (if frame_id f = x
      then (case outcome of
              Inr p \<Rightarrow> f\<lparr>status := COMPLETED, prompt := Some p\<rparr>
            | Inl m \<Rightarrow> f\<lparr>status := ERROR, errorMessage := Some m\<rparr>)
      else f)"

section \<open>Example runs\<close>

definition tooManyRequests :: JsError where
  "tooManyRequests =
     JsError (Some ''429 Too Many Requests'') (Some 429) ''Error: 429 Too Many Requests''"

definition serverError :: JsError where
  "serverError = JsError (Some ''500 Internal'') (Some 500) ''Error: 500 Internal''"

definition twiceLimited :: "nat \<Rightarrow> ApiOutcome" where
  "twiceLimited k = (if k < 2 then Rejects tooManyRequests else Resolves (Some ''a red kite''))"

definition alwaysLimited :: "nat \<Rightarrow> ApiOutcome" where
  "alwaysLimited k = Rejects tooManyRequests"

text \<open>One rate limit, then a failure that is not a rate limit.\<close>

definition limitedThenFailing :: "nat \<Rightarrow> ApiOutcome" where
  "limitedThenFailing k = (if k < 1 then Rejects tooManyRequests else Rejects serverError)"

definition failing :: "nat \<Rightarrow> ApiOutcome" where
  "failing k = Rejects serverError"

definition describing :: "nat \<Rightarrow> ApiOutcome" where
  "describing k = Resolves (Some ''a red kite'')"

definition still :: string where
  "still = ''data:image/jpeg;base64,AA==''"

text \<open>
  The user picks a file and presses start (the default interval is 3 seconds); the
  metadata loads with duration \<open>d\<close>.
\<close>

definition openClip :: "real \<Rightarrow> Event list" where
  "openClip d =
     [FileSelected ''clip.mp4'' ''blob:clip'', StartAnalysis True, MetadataLoaded 0 (Num d)]"

text \<open>A 10 second clip: two frames captured, then the first one under analysis.\<close>

definition twoCaptured :: App where
  "twoCaptured = run (openClip 10 @ [Seeked 0 still, Seeked 0 still]) initApp"

definition oneAnalyzing :: App where
  "oneAnalyzing = step TimerFired twoCaptured"

text \<open>The analysis of the first frame has returned a description.\<close>

definition firstDone :: App where
  "firstDone = step (Settled 0 describing) oneAnalyzing"

text \<open>A failure that carries no message at all.\<close>

definition unexplained :: "nat \<Rightarrow> ApiOutcome" where
  "unexplained k = Rejects (JsError None None ''[object Object]'')"

text \<open>The user presses stop while the first frame is under analysis.\<close>

definition stopped :: App where
  "stopped = step StopAnalysis oneAnalyzing"

text \<open>Pressing the start button is the only event that begins a run.\<close>

fun isStart :: "Event \<Rightarrow> bool" where
  "isStart (StartAnalysis ctx) = True"
| "isStart _ = False"

text \<open>
  The frames that a capture loop is expected to append for the images \<open>imgs\<close>, one
  per seek, starting at time \<open>t\<close> with identifier \<open>uid\<close> and advancing by \<open>i\<close>.
\<close>

fun capturedFrames :: "nat \<Rightarrow> int \<Rightarrow> int \<Rightarrow> string list \<Rightarrow> VideoFrame list" where
  "capturedFrames uid t i [] = []"
| "capturedFrames uid t i (img # imgs) =
     \<lparr>frame_id = uid, timestamp = t, imageUrl = img, prompt = None, status = PENDING,
      errorMessage = None\<rparr> # capturedFrames (Suc uid) (t + i) i imgs"

text \<open>A 10 second clip at the default interval, with five seeks completed.\<close>

definition wholeClip :: App where
  "wholeClip =
     run (openClip 10 @ [Seeked 0 still, Seeked 0 still, Seeked 0 still, Seeked 0 still,
                         Seeked 0 still]) initApp"

text \<open>The state after the user has picked a file.\<close>

definition fileChosen :: App where
  "fileChosen = step (FileSelected ''clip.mp4'' ''blob:clip'') initApp"

text \<open>A 5 second clip at the default interval: both of its frames captured.\<close>

definition shortClip :: App where
  "shortClip = run (openClip 5 @ [Seeked 0 still, Seeked 0 still]) initApp"

text \<open>
  A 10 second clip whose first frame is captured and analysed to the end before the
  second seek completes.
\<close>

definition analysedEarly :: App where
  "analysedEarly = run (openClip 10 @ [Seeked 0 still, TimerFired, Settled 0 describing]) initApp"

text \<open>A 2 second clip at the default interval of 3 seconds: its only frame captured.\<close>

definition tinyClip :: App where
  "tinyClip = run (openClip 2 @ [Seeked 0 still]) initApp"

text \<open>The position of a status in the state machine of a frame.\<close>

fun stage :: "ProcessingStatus \<Rightarrow> nat" where
  "stage PENDING = 0"
| "stage ANALYZING = 1"
| "stage COMPLETED = 2"
| "stage ERROR = 2"

text \<open>
  The events that may occur while the capture loop \<open>k\<close> runs undisturbed: its own
  seeks, and the events of the analysis phase. The other events start, cancel or
  discard a run, or belong to another invocation of \<open>startAnalysis\<close>.
\<close>

fun captureEvent :: "nat \<Rightarrow> Event \<Rightarrow> bool" where
  "captureEvent k (Seeked j img) = (j = k)"
| "captureEvent k TimerFired = True"
| "captureEvent k (Settled fid api) = True"
| "captureEvent k (IntervalChanged parsed) = True"
| "captureEvent k _ = False"

text \<open>The number of seeks of the loop \<open>k\<close> among the events.\<close>

fun seekCount :: "nat \<Rightarrow> Event list \<Rightarrow> nat" where
  "seekCount k [] = 0"
| "seekCount k (Seeked j img # evs) = (if j = k then Suc (seekCount k evs) else seekCount k evs)"
| "seekCount k (e # evs) = seekCount k evs"

text \<open>The seeks of the example \<open>wholeClip\<close>, with the analysis of the first frame in between.\<close>

definition analysedMeanwhile :: "Event list" where
  "analysedMeanwhile =
     [Seeked 0 still, Seeked 0 still, TimerFired, Seeked 0 still, Settled 0 describing,
      Seeked 0 still, Seeked 0 still]"

section \<open>The retry loop of the Analysis Client\<close>

declare generateImagePrompt_loop.simps [simp del]

lemma loop_delays:
  "\<exists>n. retries \<le> n \<and> n \<le> max retries maxRetries \<and>
       snd (generateImagePrompt_loop api retries waited)
         = waited @ map (\<lambda>k. 2 ^ k * 1000) [Suc retries..<Suc n]"
proof (induction api retries waited rule: generateImagePrompt_loop.induct)
  case (1 api retries waited)
  show ?case
  proof (cases "api retries")
    case (Resolves t)
    then have "snd (generateImagePrompt_loop api retries waited) = waited"
      by (simp add: generateImagePrompt_loop.simps)
    then show ?thesis by (intro exI[of _ retries]) simp
  next
    case (Rejects error)
    show ?thesis
    proof (cases "isRateLimit error \<and> retries < maxRetries")
      case True
      from "1.IH"[OF Rejects True] obtain n where
        n: "retries + 1 \<le> n" "n \<le> max (retries + 1) maxRetries"
           "snd (generateImagePrompt_loop api (retries + 1) (waited @ [2 ^ (retries + 1) * 1000]))
              = (waited @ [2 ^ (retries + 1) * 1000]) @ map (\<lambda>k. 2 ^ k * 1000) [Suc (retries + 1)..<Suc n]"
        by blast
      have "[Suc retries..<Suc n] = Suc retries # [Suc (Suc retries)..<Suc n]"
        using n(1) by (simp add: upt_conv_Cons)
      with n Rejects True show ?thesis
        by (intro exI[of _ n]) (simp add: generateImagePrompt_loop.simps[of api retries])
    next
      case False
      with Rejects have "snd (generateImagePrompt_loop api retries waited) = waited"
        by (auto simp add: generateImagePrompt_loop.simps[of api retries])
      then show ?thesis by (intro exI[of _ retries]) simp
    qed
  qed
qed

lemma loop_resolves:
  "api retries = Resolves text \<Longrightarrow>
   generateImagePrompt_loop api retries waited = (Inr (js_or text noDescription), waited)"
  by (simp add: generateImagePrompt_loop.simps)

lemma loop_retry:
  "api retries = Rejects error \<Longrightarrow> isRateLimit error \<Longrightarrow> retries < maxRetries \<Longrightarrow>
   generateImagePrompt_loop api retries waited
     = generateImagePrompt_loop api (Suc retries) (waited @ [2 ^ Suc retries * 1000])"
  by (simp add: generateImagePrompt_loop.simps[of api retries])

lemma loop_throws:
  "api retries = Rejects error \<Longrightarrow> \<not> (isRateLimit error \<and> retries < maxRetries) \<Longrightarrow>
   generateImagePrompt_loop api retries waited = (Inl (js_or (message error) analysisFailed), waited)"
  by (auto simp add: generateImagePrompt_loop.simps[of api retries])

lemma retry_scenarios:
  "(\<exists>n\<le>3. snd (generateImagePrompt api) = map (\<lambda>k. 2 ^ k * 1000) [1..<Suc n])
   \<and> (((\<forall>k<2. \<exists>e. api k = Rejects e \<and> isRateLimit e) \<and> api 2 = Resolves (Some t) \<and> t \<noteq> [])
        \<longrightarrow> generateImagePrompt api = (Inr t, [2000, 4000]))
   \<and> ((\<forall>k. \<exists>e. api k = Rejects e \<and> isRateLimit e)
        \<longrightarrow> (\<exists>e. api 3 = Rejects e
               \<and> generateImagePrompt api = (Inl (js_or (message e) analysisFailed), [2000, 4000, 8000])
               \<and> callsMade (generateImagePrompt api) = 4))
   \<and> ((api 0 = Rejects e0 \<and> \<not> isRateLimit e0)
        \<longrightarrow> generateImagePrompt api = (Inl (js_or (message e0) analysisFailed), []))"
proof (intro conjI impI)
  from loop_delays[of 0 api "[]"] obtain n where
    "n \<le> max 0 maxRetries" "snd (generateImagePrompt_loop api 0 []) = [] @ map (\<lambda>k. 2 ^ k * 1000) [Suc 0..<Suc n]"
    by blast
  then show "\<exists>n\<le>3. snd (generateImagePrompt api) = map (\<lambda>k. 2 ^ k * 1000) [1..<Suc n]"
    by (intro exI[of _ n]) (simp add: generateImagePrompt_def maxRetries_def)
next
  assume a: "(\<forall>k<2. \<exists>e. api k = Rejects e \<and> isRateLimit e) \<and> api 2 = Resolves (Some t) \<and> t \<noteq> []"
  then obtain e0 e1 where e: "api 0 = Rejects e0" "isRateLimit e0" "api (Suc 0) = Rejects e1" "isRateLimit e1"
    by (metis One_nat_def one_less_numeral_iff pos2 semiring_norm(76))
  from a have r: "api (Suc (Suc 0)) = Resolves (Some t)" "t \<noteq> []" by (simp_all add: numeral_2_eq_2)
  show "generateImagePrompt api = (Inr t, [2000, 4000])"
    unfolding generateImagePrompt_def
    by (simp add: loop_retry[of api 0 e0, OF e(1,2)] loop_retry[of api "Suc 0" e1, OF e(3,4)] loop_resolves[of api "Suc (Suc 0)", OF r(1)] r(2)
        maxRetries_def js_or_def)
next
  assume a: "\<forall>k. \<exists>e. api k = Rejects e \<and> isRateLimit e"
  then obtain e0 e1 e2 e3 where e:
    "api 0 = Rejects e0" "isRateLimit e0" "api (Suc 0) = Rejects e1" "isRateLimit e1"
    "api (Suc (Suc 0)) = Rejects e2" "isRateLimit e2" "api (Suc (Suc (Suc 0))) = Rejects e3"
    by metis
  have g: "generateImagePrompt api = (Inl (js_or (message e3) analysisFailed), [2000, 4000, 8000])"
    unfolding generateImagePrompt_def
    by (simp add: loop_retry[of api 0 e0, OF e(1,2)] loop_retry[of api "Suc 0" e1, OF e(3,4)]
        loop_retry[of api "Suc (Suc 0)" e2, OF e(5,6)]
        loop_throws[of api "Suc (Suc (Suc 0))" e3, OF e(7)] maxRetries_def)
  from e(7) have "api 3 = Rejects e3" by (simp add: numeral_3_eq_3)
  with g show "\<exists>e. api 3 = Rejects e
               \<and> generateImagePrompt api = (Inl (js_or (message e) analysisFailed), [2000, 4000, 8000])
               \<and> callsMade (generateImagePrompt api) = 4"
    by (simp add: callsMade_def)
next
  assume "api 0 = Rejects e0 \<and> \<not> isRateLimit e0"
  then show "generateImagePrompt api = (Inl (js_or (message e0) analysisFailed), [])"
    unfolding generateImagePrompt_def by (simp add: loop_throws)
qed

lemma loop_rate_limited:
  "\<forall>j<k. \<exists>e. api (retries + j) = Rejects e \<and> isRateLimit e \<Longrightarrow>
   retries + k \<le> maxRetries \<Longrightarrow>
   generateImagePrompt_loop api retries waited
     = generateImagePrompt_loop api (retries + k)
         (waited @ map (\<lambda>j. 2 ^ j * 1000) [Suc retries..<Suc (retries + k)])"
proof (induction k arbitrary: retries waited)
  case 0
  show ?case by simp
next
  case (Suc k)
  from Suc.prems(1) have "\<exists>e. api (retries + 0) = Rejects e \<and> isRateLimit e" by blast
  then obtain e where e: "api retries = Rejects e" "isRateLimit e" by auto
  from Suc.prems(2) have lt: "retries < maxRetries" by simp
  have first: "generateImagePrompt_loop api retries waited
                 = generateImagePrompt_loop api (Suc retries) (waited @ [2 ^ Suc retries * 1000])"
    using e lt by (rule loop_retry)
  have rest: "\<forall>j<k. \<exists>e. api (Suc retries + j) = Rejects e \<and> isRateLimit e"
  proof (intro allI impI)
    fix j assume "j < k"
    then have "Suc j < Suc k" by simp
    with Suc.prems(1) have "\<exists>e. api (retries + Suc j) = Rejects e \<and> isRateLimit e" by blast
    then show "\<exists>e. api (Suc retries + j) = Rejects e \<and> isRateLimit e" by simp
  qed
  from Suc.prems(2) have le: "Suc retries + k \<le> maxRetries" by simp
  have upt: "[Suc retries..<Suc (retries + Suc k)]
               = Suc retries # [Suc (Suc retries)..<Suc (Suc retries + k)]"
    by (simp add: upt_conv_Cons del: upt_Suc)
  show ?case
    unfolding first Suc.IH[OF rest le] upt by simp
qed

lemma retry_then_fail:
  assumes k: "k \<le> 3" and lim: "\<forall>j<k. \<exists>e. api j = Rejects e \<and> isRateLimit e"
    and last: "api k = Rejects e" and stop: "\<not> isRateLimit e \<or> k = 3"
  shows "generateImagePrompt api
           = (Inl (js_or (message e) analysisFailed), map (\<lambda>j. 2 ^ j * 1000) [1..<Suc k])"
proof -
  from lim have lim': "\<forall>j<k. \<exists>e. api (0 + j) = Rejects e \<and> isRateLimit e" by simp
  from k have le: "0 + k \<le> maxRetries" by (simp add: maxRetries_def)
  from stop have no: "\<not> (isRateLimit e \<and> k < maxRetries)" by (auto simp add: maxRetries_def)
  have "generateImagePrompt api
          = generateImagePrompt_loop api k (map (\<lambda>j. 2 ^ j * 1000) [Suc 0..<Suc k])"
    unfolding generateImagePrompt_def using loop_rate_limited[OF lim' le, of "[]"] by simp
  also have "\<dots> = (Inl (js_or (message e) analysisFailed), map (\<lambda>j. 2 ^ j * 1000) [Suc 0..<Suc k])"
    using last no by (rule loop_throws)
  finally show ?thesis by simp
qed

lemma retry_then_succeed:
  assumes k: "k \<le> 3" and lim: "\<forall>j<k. \<exists>e. api j = Rejects e \<and> isRateLimit e"
    and last: "api k = Resolves r"
  shows "generateImagePrompt api
           = (Inr (js_or r noDescription), map (\<lambda>j. 2 ^ j * 1000) [1..<Suc k])"
proof -
  from lim have lim': "\<forall>j<k. \<exists>e. api (0 + j) = Rejects e \<and> isRateLimit e" by simp
  from k have le: "0 + k \<le> maxRetries" by (simp add: maxRetries_def)
  have "generateImagePrompt api
          = generateImagePrompt_loop api k (map (\<lambda>j. 2 ^ j * 1000) [Suc 0..<Suc k])"
    unfolding generateImagePrompt_def using loop_rate_limited[OF lim' le, of "[]"] by simp
  also have "\<dots> = (Inr (js_or r noDescription), map (\<lambda>j. 2 ^ j * 1000) [Suc 0..<Suc k])"
    using last by (rule loop_resolves)
  finally show ?thesis by simp
qed

text \<open>
  Claim C3. On a rate-limit failure (429) \<open>generateImagePrompt\<close> waits \<open>2^attempt\<close>
  seconds, starting at attempt 1, and retries, at most 3 times: the delays awaited
  are an initial part of 2 s, 4 s, 8 s. A call that is rate-limited twice and then
  succeeds returns the text of the model after delays of 2 s and 4 s. A call that is
  always rate-limited fails after exactly 3 retries (4 calls) with an error carrying
  the message of the last failure, or the generic message when there is none. Any
  other failure fails at once in the same way, wherever it occurs: after \<open>k \<le> 3\<close>
  rate limits, a failure that is not a rate limit (or, for \<open>k = 3\<close>, any failure) ends
  the call with that failure's message after exactly the \<open>k\<close> delays
  \<open>2 s, ..., 2^k s\<close> and \<open>k + 1\<close> calls, with no further retry; and a success after
  \<open>k \<le> 3\<close> rate limits returns the text (or the placeholder when there is none)
  after exactly those \<open>k\<close> delays. The loop always returns:
  \<open>generateImagePrompt_loop\<close> is a total function.
\<close>

theorem generateImagePrompt_retry_policy:
  "(\<exists>n\<le>3. snd (generateImagePrompt api) = map (\<lambda>k. 2 ^ k * 1000) [1..<Suc n])
   \<and> (((\<forall>k<2. \<exists>e. api k = Rejects e \<and> isRateLimit e) \<and> api 2 = Resolves (Some t) \<and> t \<noteq> [])
        \<longrightarrow> generateImagePrompt api = (Inr t, [2000, 4000]))
   \<and> ((\<forall>k. \<exists>e. api k = Rejects e \<and> isRateLimit e)
        \<longrightarrow> (\<exists>e. api 3 = Rejects e
               \<and> generateImagePrompt api = (Inl (js_or (message e) analysisFailed), [2000, 4000, 8000])
               \<and> callsMade (generateImagePrompt api) = 4))
   \<and> ((api 0 = Rejects e0 \<and> \<not> isRateLimit e0)
        \<longrightarrow> generateImagePrompt api = (Inl (js_or (message e0) analysisFailed), []))
   \<and> ((k \<le> 3 \<and> (\<forall>j<k. \<exists>e. api j = Rejects e \<and> isRateLimit e)
         \<and> api k = Rejects e1 \<and> (\<not> isRateLimit e1 \<or> k = 3))
        \<longrightarrow> generateImagePrompt api
              = (Inl (js_or (message e1) analysisFailed), map (\<lambda>j. 2 ^ j * 1000) [1..<Suc k])
            \<and> callsMade (generateImagePrompt api) = Suc k)
   \<and> ((k \<le> 3 \<and> (\<forall>j<k. \<exists>e. api j = Rejects e \<and> isRateLimit e) \<and> api k = Resolves r)
        \<longrightarrow> generateImagePrompt api
              = (Inr (js_or r noDescription), map (\<lambda>j. 2 ^ j * 1000) [1..<Suc k])
            \<and> callsMade (generateImagePrompt api) = Suc k)"
proof -
  have fail: "(k \<le> 3 \<and> (\<forall>j<k. \<exists>e. api j = Rejects e \<and> isRateLimit e)
         \<and> api k = Rejects e1 \<and> (\<not> isRateLimit e1 \<or> k = 3))
        \<longrightarrow> generateImagePrompt api
              = (Inl (js_or (message e1) analysisFailed), map (\<lambda>j. 2 ^ j * 1000) [1..<Suc k])
            \<and> callsMade (generateImagePrompt api) = Suc k"
  proof
    assume h: "k \<le> 3 \<and> (\<forall>j<k. \<exists>e. api j = Rejects e \<and> isRateLimit e)
         \<and> api k = Rejects e1 \<and> (\<not> isRateLimit e1 \<or> k = 3)"
    then have g: "generateImagePrompt api
              = (Inl (js_or (message e1) analysisFailed), map (\<lambda>j. 2 ^ j * 1000) [1..<Suc k])"
      by (intro retry_then_fail) blast+
    then show "generateImagePrompt api
              = (Inl (js_or (message e1) analysisFailed), map (\<lambda>j. 2 ^ j * 1000) [1..<Suc k])
            \<and> callsMade (generateImagePrompt api) = Suc k"
      by (simp add: callsMade_def)
  qed
  have succeed: "(k \<le> 3 \<and> (\<forall>j<k. \<exists>e. api j = Rejects e \<and> isRateLimit e) \<and> api k = Resolves r)
        \<longrightarrow> generateImagePrompt api
              = (Inr (js_or r noDescription), map (\<lambda>j. 2 ^ j * 1000) [1..<Suc k])
            \<and> callsMade (generateImagePrompt api) = Suc k"
  proof
    assume h: "k \<le> 3 \<and> (\<forall>j<k. \<exists>e. api j = Rejects e \<and> isRateLimit e) \<and> api k = Resolves r"
    then have g: "generateImagePrompt api
              = (Inr (js_or r noDescription), map (\<lambda>j. 2 ^ j * 1000) [1..<Suc k])"
      by (intro retry_then_succeed) blast+
    then show "generateImagePrompt api
              = (Inr (js_or r noDescription), map (\<lambda>j. 2 ^ j * 1000) [1..<Suc k])
            \<and> callsMade (generateImagePrompt api) = Suc k"
      by (simp add: callsMade_def)
  qed
  from retry_scenarios[of api t e0] fail succeed show ?thesis by blast
qed

theorem generateImagePrompt_retry_policy_witness:
  "generateImagePrompt twiceLimited = (Inr ''a red kite'', [2000, 4000])
   \<and> generateImagePrompt alwaysLimited = (Inl ''429 Too Many Requests'', [2000, 4000, 8000])
   \<and> callsMade (generateImagePrompt alwaysLimited) = 4
   \<and> generateImagePrompt failing = (Inl ''500 Internal'', [])
   \<and> generateImagePrompt unexplained = (Inl analysisFailed, [])
   \<and> generateImagePrompt limitedThenFailing = (Inl ''500 Internal'', [2000])
   \<and> callsMade (generateImagePrompt limitedThenFailing) = 2
   \<and> generateImagePrompt describing = (Inr ''a red kite'', [])"
proof -
  have lim: "isRateLimit tooManyRequests"
    by (simp add: isRateLimit_def tooManyRequests_def)
  have h1: "(\<forall>k<2. \<exists>e. twiceLimited k = Rejects e \<and> isRateLimit e)
            \<and> twiceLimited 2 = Resolves (Some ''a red kite'') \<and> ''a red kite'' \<noteq> []"
    using lim by (simp add: twiceLimited_def)
  have h2: "\<forall>k. \<exists>e. alwaysLimited k = Rejects e \<and> isRateLimit e"
    using lim by (simp add: alwaysLimited_def)
  have h3: "failing 0 = Rejects serverError \<and> \<not> isRateLimit serverError"
    by (simp add: isRateLimit_def failing_def serverError_def)
  have h4: "unexplained 0 = Rejects (JsError None None ''[object Object]'')
            \<and> \<not> isRateLimit (JsError None None ''[object Object]'')"
    by (simp add: isRateLimit_def unexplained_def)
  have c1: "generateImagePrompt twiceLimited = (Inr ''a red kite'', [2000, 4000])"
    using generateImagePrompt_retry_policy[where api = twiceLimited and t = "''a red kite''"] h1
    by blast
  have "\<exists>e. alwaysLimited 3 = Rejects e
          \<and> generateImagePrompt alwaysLimited
              = (Inl (js_or (message e) analysisFailed), [2000, 4000, 8000])
          \<and> callsMade (generateImagePrompt alwaysLimited) = 4"
    using generateImagePrompt_retry_policy[where api = alwaysLimited] h2
    by blast
  then have c2: "generateImagePrompt alwaysLimited
                   = (Inl ''429 Too Many Requests'', [2000, 4000, 8000])
                 \<and> callsMade (generateImagePrompt alwaysLimited) = 4"
    by (auto simp add: alwaysLimited_def tooManyRequests_def js_or_def)
  have c3: "generateImagePrompt failing = (Inl ''500 Internal'', [])"
    using generateImagePrompt_retry_policy[where api = failing and ?e0.0 = serverError] h3
    by (simp add: js_or_def serverError_def)
  have c4: "generateImagePrompt unexplained = (Inl analysisFailed, [])"
    using generateImagePrompt_retry_policy[where api = unexplained and ?e0.0 = "JsError None None ''[object Object]''"] h4
    by (simp add: js_or_def)
  have nolim: "\<not> isRateLimit serverError"
    by (simp add: isRateLimit_def serverError_def)
  have h5: "(1::nat) \<le> 3 \<and> (\<forall>j<1. \<exists>e. limitedThenFailing j = Rejects e \<and> isRateLimit e)
            \<and> limitedThenFailing 1 = Rejects serverError \<and> (\<not> isRateLimit serverError \<or> (1::nat) = 3)"
    using lim nolim by (simp add: limitedThenFailing_def)
  have "generateImagePrompt limitedThenFailing
          = (Inl (js_or (message serverError) analysisFailed), map (\<lambda>j. 2 ^ j * 1000) [1..<Suc 1])
        \<and> callsMade (generateImagePrompt limitedThenFailing) = Suc 1"
    using generateImagePrompt_retry_policy[where api = limitedThenFailing and k = 1
        and ?e1.0 = serverError] h5
    by blast
  then have c5: "generateImagePrompt limitedThenFailing = (Inl ''500 Internal'', [2000])
                 \<and> callsMade (generateImagePrompt limitedThenFailing) = 2"
    by (simp add: serverError_def js_or_def callsMade_def)
  have h6: "(0::nat) \<le> 3 \<and> (\<forall>j<0. \<exists>e. describing j = Rejects e \<and> isRateLimit e)
            \<and> describing 0 = Resolves (Some ''a red kite'')"
    by (simp add: describing_def)
  have "generateImagePrompt describing
          = (Inr (js_or (Some ''a red kite'') noDescription), map (\<lambda>j. 2 ^ j * 1000) [1..<Suc 0])
        \<and> callsMade (generateImagePrompt describing) = Suc 0"
    using generateImagePrompt_retry_policy[where api = describing and k = 0
        and r = "Some ''a red kite''"] h6
    by blast
  then have c6: "generateImagePrompt describing = (Inr ''a red kite'', [])"
    by (simp add: js_or_def)
  from c1 c2 c3 c4 c5 c6 show ?thesis by blast
qed

section \<open>The reconciliation effect and the invariants\<close>

lemma reconcile_keeps [simp]:
  "frames (reconcile s) = frames s"
  "controllers (reconcile s) = controllers s"
  "abortControllerRef (reconcile s) = abortControllerRef s"
  "tasks (reconcile s) = tasks s"
  "inFlight (reconcile s) = inFlight s"
  "nextUuid (reconcile s) = nextUuid s"
  "config (reconcile s) = config s"
  "videoSrc (reconcile s) = videoSrc s"
  "videoFile (reconcile s) = videoFile s"
  by (simp_all add: reconcile_def Let_def split: option.splits)

lemma reconcile_timer:
  "timer (reconcile s) = Some f \<Longrightarrow>
     isProcessing s \<and> \<not> currentAborted s
     \<and> \<not> list_ex (\<lambda>f. status f = ANALYZING) (frames s)
     \<and> find (\<lambda>f. status f = PENDING) (frames s) = Some f"
  by (auto simp add: reconcile_def Let_def currentAborted_def aborted_def split: option.splits if_splits)

lemma reconcile_idle: "\<not> isProcessing s \<Longrightarrow> reconcile s = s\<lparr>timer := None\<rparr>"
  by (simp add: reconcile_def Let_def)

lemma wellFormed_reconcile:
  assumes "framesInv (frames s) (inFlight s) (nextUuid s)"
  shows "wellFormed (reconcile s)"
  using assms reconcile_timer[of s] by (auto simp add: wellFormed_def)

lemma mark_other:
  "\<forall>g \<in> set fs. frame_id g \<noteq> x \<Longrightarrow> map (\<lambda>f. if frame_id f = x then upd f else f) fs = fs"
  by (induction fs) auto

lemma analyzing_after_mark:
  "distinct (map frame_id fs) \<Longrightarrow> \<not> list_ex (\<lambda>f. status f = ANALYZING) fs \<Longrightarrow>
   length (filter (\<lambda>f. status f = ANALYZING)
             (map (\<lambda>f. if frame_id f = x then f\<lparr>status := ANALYZING\<rparr> else f) fs)) \<le> 1"
proof (induction fs)
  case Nil
  then show ?case by simp
next
  case (Cons f fs)
  show ?case
  proof (cases "frame_id f = x")
    case True
    from Cons.prems have notin: "frame_id f \<notin> frame_id ` set fs" by simp
    have "\<forall>g \<in> set fs. frame_id g \<noteq> x"
    proof
      fix g assume "g \<in> set fs"
      then have "frame_id g \<in> frame_id ` set fs" by simp
      with notin True show "frame_id g \<noteq> x" by auto
    qed
    then have "map (\<lambda>f. if frame_id f = x then f\<lparr>status := ANALYZING\<rparr> else f) fs = fs"
      by (rule mark_other)
    moreover from Cons.prems have "filter (\<lambda>f. status f = ANALYZING) fs = []"
      by (auto simp add: list_ex_iff filter_empty_conv)
    ultimately show ?thesis using True by simp
  next
    case False
    with Cons show ?thesis by (auto simp add: list_ex_iff)
  qed
qed

lemma analyzing_after_settle:
  assumes "\<And>f. status (upd f) \<noteq> ANALYZING"
  shows "length (filter (\<lambda>f. status f = ANALYZING)
             (map (\<lambda>f. if frame_id f = x then upd f else f) fs))
         \<le> length (filter (\<lambda>f. status f = ANALYZING) fs)"
  using assms by (induction fs) (auto simp add: le_SucI)

lemma map_upd_ids:
  assumes "\<And>f. frame_id (upd f) = frame_id f"
  shows "map frame_id (map (\<lambda>f. if frame_id f = x then upd f else f) fs) = map frame_id fs"
  using assms by (induction fs) auto

lemma framesInv_Nil: "framesInv fs calls n \<Longrightarrow> framesInv [] calls n"
  by (simp add: framesInv_def)

lemma framesInv_append:
  assumes "framesInv fs calls n"
  shows "framesInv (fs @ [\<lparr>frame_id = n, timestamp = t, imageUrl = img, prompt = None,
                           status = PENDING, errorMessage = None\<rparr>]) calls (Suc n)"
  using assms by (auto simp add: framesInv_def less_SucI)

lemma find_Some_set: "find P xs = Some x \<Longrightarrow> x \<in> set xs \<and> P x"
  by (induction xs) (auto split: if_splits)

lemma framesInv_mark:
  assumes inv: "framesInv fs calls n"
    and none: "\<not> list_ex (\<lambda>f. status f = ANALYZING) fs"
    and f: "find (\<lambda>f. status f = PENDING) fs = Some frame"
  shows "framesInv (map (\<lambda>f. if frame_id f = frame_id frame then f\<lparr>status := ANALYZING\<rparr> else f) fs)
           (calls @ [frame_id frame]) n"
proof -
  from f have mem: "frame \<in> set fs" "status frame = PENDING"
    using find_Some_set[of "\<lambda>f. status f = PENDING" fs frame] by simp_all
  from inv mem have fresh: "frame_id frame \<notin> set calls"
    by (auto simp add: framesInv_def)
  from inv have d: "distinct (map frame_id fs)" by (simp add: framesInv_def)
  have ids: "map frame_id (map (\<lambda>f. if frame_id f = frame_id frame then f\<lparr>status := ANALYZING\<rparr> else f) fs)
               = map frame_id fs"
    by (rule map_upd_ids) simp
  have cnt: "length (filter (\<lambda>f. status f = ANALYZING)
             (map (\<lambda>f. if frame_id f = frame_id frame then f\<lparr>status := ANALYZING\<rparr> else f) fs)) \<le> 1"
    using d none by (rule analyzing_after_mark)
  from none have noan: "\<forall>g \<in> set fs. status g \<noteq> ANALYZING" by (simp add: list_ex_iff)
  show ?thesis
    unfolding framesInv_def
  proof (intro conjI)
    show "distinct (map frame_id (map (\<lambda>f. if frame_id f = frame_id frame then f\<lparr>status := ANALYZING\<rparr> else f) fs))"
      using d by (simp only: ids)
    show "\<forall>f\<in>set (map (\<lambda>f. if frame_id f = frame_id frame then f\<lparr>status := ANALYZING\<rparr> else f) fs). frame_id f < n"
      using inv by (auto simp add: framesInv_def)
    show "\<forall>x\<in>set (calls @ [frame_id frame]). x < n"
      using inv mem by (auto simp add: framesInv_def)
    show "distinct (calls @ [frame_id frame])"
      using inv fresh by (simp add: framesInv_def)
    show "\<forall>f\<in>set (map (\<lambda>f. if frame_id f = frame_id frame then f\<lparr>status := ANALYZING\<rparr> else f) fs).
            frame_id f \<in> set (calls @ [frame_id frame]) \<longrightarrow> status f = ANALYZING"
      using inv by (auto simp add: framesInv_def)
    show "length (filter (\<lambda>f. status f = ANALYZING)
             (map (\<lambda>f. if frame_id f = frame_id frame then f\<lparr>status := ANALYZING\<rparr> else f) fs)) \<le> 1"
      by (rule cnt)
  qed
qed

lemma framesInv_settle:
  assumes inv: "framesInv fs calls n"
    and id: "\<And>f. frame_id (upd f) = frame_id f"
    and st: "\<And>f. status (upd f) \<noteq> ANALYZING"
  shows "framesInv (map (\<lambda>f. if frame_id f = x then upd f else f) fs) (remove1 x calls) n"
proof -
  have ids: "map frame_id (map (\<lambda>f. if frame_id f = x then upd f else f) fs) = map frame_id fs"
    using id by (rule map_upd_ids)
  have cnt: "length (filter (\<lambda>f. status f = ANALYZING) (map (\<lambda>f. if frame_id f = x then upd f else f) fs))
         \<le> length (filter (\<lambda>f. status f = ANALYZING) fs)"
    using st by (rule analyzing_after_settle)
  from inv have dc: "distinct calls" by (simp add: framesInv_def)
  show ?thesis
    unfolding framesInv_def
  proof (intro conjI)
    show "distinct (map frame_id (map (\<lambda>f. if frame_id f = x then upd f else f) fs))"
      using inv by (simp only: ids framesInv_def)
    show "\<forall>f\<in>set (map (\<lambda>f. if frame_id f = x then upd f else f) fs). frame_id f < n"
      using inv id by (auto simp add: framesInv_def)
    show "\<forall>y\<in>set (remove1 x calls). y < n"
      using inv by (auto simp add: framesInv_def dest: notin_set_remove1)
    show "distinct (remove1 x calls)"
      using dc by simp
    show "\<forall>f\<in>set (map (\<lambda>f. if frame_id f = x then upd f else f) fs).
            frame_id f \<in> set (remove1 x calls) \<longrightarrow> status f = ANALYZING"
      using inv dc id by (auto simp add: framesInv_def)
    show "length (filter (\<lambda>f. status f = ANALYZING) (map (\<lambda>f. if frame_id f = x then upd f else f) fs)) \<le> 1"
      using cnt inv by (simp add: framesInv_def)
  qed
qed

lemma wellFormed_init: "wellFormed initApp"
  by (simp add: wellFormed_def framesInv_def initApp_def)

lemma wellFormed_cleared: "wellFormed s \<Longrightarrow> framesInv [] (inFlight s) (nextUuid s)"
  unfolding wellFormed_def by (elim conjE) (rule framesInv_Nil)

lemma wellFormed_handleFileSelected: "wellFormed s \<Longrightarrow> wellFormed (handleFileSelected file url s)"
  unfolding handleFileSelected_def
  by (rule wellFormed_reconcile) (simp add: wellFormed_cleared)

lemma wellFormed_reset: "wellFormed s \<Longrightarrow> wellFormed (reset s)"
  unfolding reset_def
  by (rule wellFormed_reconcile) (simp add: wellFormed_cleared)

lemma wellFormed_startAnalysis: "wellFormed s \<Longrightarrow> wellFormed (startAnalysis ctx s)"
proof (cases "videoSrc s")
  case None
  assume "wellFormed s"
  with None show ?thesis by (simp add: startAnalysis_def)
next
  case (Some src)
  assume "wellFormed s"
  then have "framesInv [] (inFlight s) (nextUuid s)"
    by (rule wellFormed_cleared)
  with Some show ?thesis
    unfolding startAnalysis_def Let_def
    by (cases ctx) (simp_all add: wellFormed_reconcile)
qed

lemma wellFormed_stopAnalysis: "wellFormed s \<Longrightarrow> wellFormed (stopAnalysis s)"
proof (cases "isProcessing s")
  case True
  assume "wellFormed s"
  then have "framesInv (frames s) (inFlight s) (nextUuid s)"
    by (simp add: wellFormed_def)
  with True show ?thesis
    unfolding stopAnalysis_def Let_def
    by (simp add: wellFormed_reconcile)
next
  case False
  assume "wellFormed s"
  with False show ?thesis
    by (simp add: stopAnalysis_def Let_def wellFormed_def)
qed

lemma wellFormed_metadata: "wellFormed s \<Longrightarrow> wellFormed (startAnalysis_metadata k d s)"
  unfolding startAnalysis_metadata_def Let_def
  by (auto split: CaptureTask.splits simp add: wellFormed_def)

lemma wellFormed_intervalChanged: "wellFormed s \<Longrightarrow> wellFormed (intervalChanged parsed s)"
  by (simp add: intervalChanged_def wellFormed_def)

lemma wellFormed_seeked:
  assumes "wellFormed s"
  shows "wellFormed (startAnalysis_seeked k img s)"
proof (cases "k < length (tasks s)")
  case False
  with assms show ?thesis by (simp add: startAnalysis_seeked_def)
next
  case True
  show ?thesis
  proof (cases "tasks s ! k")
    case (AwaitingSeek v)
    from assms have "framesInv (frames s) (inFlight s) (nextUuid s)"
      by (simp add: wellFormed_def)
    then have "framesInv (frames s @ [\<lparr>frame_id = nextUuid s, timestamp = time v, imageUrl = img,
                  prompt = None, status = PENDING, errorMessage = None\<rparr>]) (inFlight s) (Suc (nextUuid s))"
      by (rule framesInv_append)
    with True AwaitingSeek show ?thesis
      unfolding startAnalysis_seeked_def Let_def
      by (simp add: wellFormed_reconcile)
  next
    case (AwaitingMetadata c i)
    with True assms show ?thesis by (simp add: startAnalysis_seeked_def)
  next
    case Finished
    with True assms show ?thesis by (simp add: startAnalysis_seeked_def)
  qed
qed

lemma wellFormed_timerFired:
  assumes "wellFormed s"
  shows "wellFormed (step TimerFired s)"
proof (cases "timer s")
  case None
  with assms show ?thesis by simp
next
  case (Some frame)
  from assms Some have "framesInv (map (\<lambda>f. if frame_id f = frame_id frame then f\<lparr>status := ANALYZING\<rparr> else f) (frames s))
           (inFlight s @ [frame_id frame]) (nextUuid s)"
    by (intro framesInv_mark) (simp_all add: wellFormed_def)
  with Some show ?thesis
    by (simp add: processFrame_def wellFormed_reconcile)
qed

lemma wellFormed_settled:
  assumes "wellFormed s"
  shows "wellFormed (processFrame_settled fid outcome s)"
proof (cases outcome)
  case (Inl m)
  from assms have "framesInv (map (\<lambda>f. if frame_id f = fid then f\<lparr>status := ERROR, errorMessage := Some m\<rparr> else f) (frames s))
     (remove1 fid (inFlight s)) (nextUuid s)"
    by (intro framesInv_settle) (simp_all add: wellFormed_def)
  with Inl show ?thesis
    by (simp add: processFrame_settled_def wellFormed_reconcile)
next
  case (Inr p)
  from assms have "framesInv (map (\<lambda>f. if frame_id f = fid then f\<lparr>status := COMPLETED, prompt := Some p\<rparr> else f) (frames s))
     (remove1 fid (inFlight s)) (nextUuid s)"
    by (intro framesInv_settle) (simp_all add: wellFormed_def)
  with Inr show ?thesis
    by (simp add: processFrame_settled_def wellFormed_reconcile)
qed

lemma wellFormed_step: "wellFormed s \<Longrightarrow> wellFormed (step e s)"
proof (cases e)
  case TimerFired
  assume "wellFormed s"
  with TimerFired show ?thesis using wellFormed_timerFired by simp
qed (simp_all add: wellFormed_handleFileSelected wellFormed_reset wellFormed_startAnalysis
      wellFormed_metadata wellFormed_seeked wellFormed_settled wellFormed_stopAnalysis
      wellFormed_intervalChanged)

lemma reachable_wellFormed: "reachable s \<Longrightarrow> wellFormed s"
  by (induction rule: reachable.induct) (simp_all add: wellFormed_init wellFormed_step)

lemma run_Nil [simp]: "run [] s = s"
  by (simp add: run_def)

lemma run_Cons [simp]: "run (e # evs) s = run evs (step e s)"
  by (simp add: run_def)

lemma reachable_run: "reachable s \<Longrightarrow> reachable (run evs s)"
  by (induction evs arbitrary: s) (simp_all add: reachable.step)


lemma inFlight_step:
  "inFlight (step e s) =
     (case e of
        TimerFired \<Rightarrow> (case timer s of None \<Rightarrow> inFlight s | Some f \<Rightarrow> inFlight s @ [frame_id f])
      | Settled x api \<Rightarrow> remove1 x (inFlight s)
      | _ \<Rightarrow> inFlight s)"
  by (cases e)
     (simp_all add: handleFileSelected_def reset_def startAnalysis_def startAnalysis_metadata_def
        startAnalysis_seeked_def stopAnalysis_def processFrame_def processFrame_settled_def
        intervalChanged_def Let_def remove1_idem
        split: option.splits CaptureTask.splits)

text \<open>The frame list after a step, by cases.\<close>

lemma frames_step:
  "frames (step e s) = [] 
   \<or> frames (step e s) = frames s
   \<or> (\<exists>k img t. e = Seeked k img \<and> frames (step e s) = frames s @ [\<lparr>frame_id = nextUuid s, timestamp = t,
          imageUrl = img, prompt = None, status = PENDING, errorMessage = None\<rparr>])
   \<or> (\<exists>fr. e = TimerFired \<and> timer s = Some fr \<and> frames (step e s) = map (markAnalyzing (frame_id fr)) (frames s))
   \<or> (\<exists>x api. e = Settled x api \<and> x \<in> set (inFlight s)
         \<and> frames (step e s) = map (settle x (fst (generateImagePrompt api))) (frames s))"
proof (cases e)
  case (Seeked k img)
  then show ?thesis
    by (auto simp add: startAnalysis_seeked_def Let_def split: CaptureTask.splits)
next
  case TimerFired
  then show ?thesis
    by (cases "timer s") (auto simp add: processFrame_def markAnalyzing_def)
next
  case (Settled x api)
  show ?thesis
  proof (cases "x \<in> set (inFlight s)")
    case True
    have "frames (step e s) = map (settle x (fst (generateImagePrompt api))) (frames s)"
      using True Settled
      by (cases "fst (generateImagePrompt api)") (simp_all add: processFrame_settled_def settle_def)
    with True Settled show ?thesis by blast
  next
    case False
    with Settled show ?thesis by simp
  qed
qed (simp_all add: handleFileSelected_def reset_def startAnalysis_def startAnalysis_metadata_def
        stopAnalysis_def intervalChanged_def Let_def split: option.splits CaptureTask.splits)

lemma same_id_same_frame:
  "distinct (map frame_id fs) \<Longrightarrow> f \<in> set fs \<Longrightarrow> g \<in> set fs \<Longrightarrow> frame_id f = frame_id g \<Longrightarrow> f = g"
  by (auto simp add: distinct_map dest: inj_onD)

lemmas eval_defs =
  run_Cons run_Nil openClip_def still_def initApp_def handleFileSelected_def reset_def
  startAnalysis_def startAnalysis_metadata_def startAnalysis_seeked_def stopAnalysis_def
  processFrame_def processFrame_settled_def intervalChanged_def reconcile_def loopHead_def
  aborted_def currentAborted_def abortCurrent_def isTerminal_def Let_def

lemma generateImagePrompt_describing:
  "generateImagePrompt describing = (Inr ''a red kite'', [])"
  by (simp add: generateImagePrompt_def loop_resolves[of describing 0 "Some ''a red kite''"]
      describing_def js_or_def)

lemma generateImagePrompt_failing:
  "generateImagePrompt failing = (Inl ''500 Internal'', [])"
  by (simp add: generateImagePrompt_def loop_throws[of failing 0 serverError]
      failing_def serverError_def js_or_def isRateLimit_def)

lemma twoCaptured_state:
  "twoCaptured =
     \<lparr>videoFile = Some ''clip.mp4'', videoSrc = Some ''blob:clip'',
      frames =
        [\<lparr>frame_id = 0, timestamp = 0, imageUrl = still, prompt = None,
          status = PENDING, errorMessage = None\<rparr>,
         \<lparr>frame_id = 1, timestamp = 3, imageUrl = still, prompt = None,
          status = PENDING, errorMessage = None\<rparr>],
      isProcessing = True, progress = Num (100 / 3),
      config = \<lparr>interval = 3, customInstructions = []\<rparr>, controllers = [False],
      abortControllerRef = Some 0,
      timer = Some \<lparr>frame_id = 0, timestamp = 0, imageUrl = still, prompt = None,
                    status = PENDING, errorMessage = None\<rparr>,
      tasks = [AwaitingSeek \<lparr>signal = 0, duration = Num 10, loopInterval = 3,
                             totalFrames = Num 3, capturedCount = 2, time = 6\<rparr>],
      inFlight = [], nextUuid = 2\<rparr>"
  by (simp add: twoCaptured_def eval_defs)

lemma oneAnalyzing_state:
  "oneAnalyzing =
     \<lparr>videoFile = Some ''clip.mp4'', videoSrc = Some ''blob:clip'',
      frames =
        [\<lparr>frame_id = 0, timestamp = 0, imageUrl = still, prompt = None,
          status = ANALYZING, errorMessage = None\<rparr>,
         \<lparr>frame_id = 1, timestamp = 3, imageUrl = still, prompt = None,
          status = PENDING, errorMessage = None\<rparr>],
      isProcessing = True, progress = Num (100 / 3),
      config = \<lparr>interval = 3, customInstructions = []\<rparr>, controllers = [False],
      abortControllerRef = Some 0, timer = None,
      tasks = [AwaitingSeek \<lparr>signal = 0, duration = Num 10, loopInterval = 3,
                             totalFrames = Num 3, capturedCount = 2, time = 6\<rparr>],
      inFlight = [0], nextUuid = 2\<rparr>"
  by (simp add: oneAnalyzing_def twoCaptured_state processFrame_def reconcile_def
      currentAborted_def aborted_def Let_def)

lemma firstDone_state:
  "firstDone =
     \<lparr>videoFile = Some ''clip.mp4'', videoSrc = Some ''blob:clip'',
      frames =
        [\<lparr>frame_id = 0, timestamp = 0, imageUrl = still, prompt = Some ''a red kite'',
          status = COMPLETED, errorMessage = None\<rparr>,
         \<lparr>frame_id = 1, timestamp = 3, imageUrl = still, prompt = None,
          status = PENDING, errorMessage = None\<rparr>],
      isProcessing = True, progress = Num (100 / 3),
      config = \<lparr>interval = 3, customInstructions = []\<rparr>, controllers = [False],
      abortControllerRef = Some 0,
      timer = Some \<lparr>frame_id = 1, timestamp = 3, imageUrl = still, prompt = None,
                    status = PENDING, errorMessage = None\<rparr>,
      tasks = [AwaitingSeek \<lparr>signal = 0, duration = Num 10, loopInterval = 3,
                             totalFrames = Num 3, capturedCount = 2, time = 6\<rparr>],
      inFlight = [], nextUuid = 2\<rparr>"
  by (simp add: firstDone_def oneAnalyzing_state generateImagePrompt_describing
      processFrame_settled_def reconcile_def currentAborted_def aborted_def Let_def)

lemma reachable_twoCaptured: "reachable twoCaptured"
  unfolding twoCaptured_def by (rule reachable_run) (rule reachable.init)

lemma reachable_oneAnalyzing: "reachable oneAnalyzing"
  unfolding oneAnalyzing_def by (rule reachable.step) (rule reachable_twoCaptured)

lemma reachable_firstDone: "reachable firstDone"
  unfolding firstDone_def by (rule reachable.step) (rule reachable_oneAnalyzing)

section \<open>Sequential analysis\<close>

text \<open>
  Claim C1. In every reachable state at most one frame has status ANALYZING, however
  many frames are PENDING. The Analysis Client is invoked by the callback of the
  timeout that the reconciliation effect sets: a timeout is pending only while no
  frame is ANALYZING, and whenever a step puts a new call in flight, no frame was
  ANALYZING before that step.
\<close>

theorem at_most_one_analyzing: 
  assumes "reachable s"
  shows "length (filter (\<lambda>f. status f = ANALYZING) (frames s)) \<le> 1
       \<and> (timer s \<noteq> None \<longrightarrow> \<not> list_ex (\<lambda>f. status f = ANALYZING) (frames s))
       \<and> (length (inFlight s) < length (inFlight (step e s))
            \<longrightarrow> \<not> list_ex (\<lambda>f. status f = ANALYZING) (frames s))"
proof -
  from assms have wf: "wellFormed s" by (rule reachable_wellFormed)
  then have t: "timer s \<noteq> None \<longrightarrow> \<not> list_ex (\<lambda>f. status f = ANALYZING) (frames s)"
    by (auto simp add: wellFormed_def)
  have "length (inFlight s) < length (inFlight (step e s)) \<longrightarrow> timer s \<noteq> None"
    by (cases e) (auto simp add: inFlight_step length_remove1 simp del: step.simps split: option.splits)
  with wf t show ?thesis by (simp add: wellFormed_def framesInv_def)
qed

theorem at_most_one_analyzing_witness:
  "reachable twoCaptured \<and> timer twoCaptured \<noteq> None
   \<and> length (inFlight twoCaptured) < length (inFlight (step TimerFired twoCaptured))
   \<and> \<not> list_ex (\<lambda>f. status f = ANALYZING) (frames twoCaptured)
   \<and> reachable oneAnalyzing
   \<and> map status (frames oneAnalyzing) = [ANALYZING, PENDING]
   \<and> length (filter (\<lambda>f. status f = ANALYZING) (frames oneAnalyzing)) \<le> 1"
proof -
  have grows: "length (inFlight twoCaptured) < length (inFlight (step TimerFired twoCaptured))"
    unfolding oneAnalyzing_def[symmetric] by (simp add: oneAnalyzing_state twoCaptured_state)
  have pending: "timer twoCaptured \<noteq> None"
    by (simp add: twoCaptured_state)
  have statuses: "map status (frames oneAnalyzing) = [ANALYZING, PENDING]"
    by (simp add: oneAnalyzing_state)
  from at_most_one_analyzing[OF reachable_twoCaptured, of TimerFired]
    at_most_one_analyzing[OF reachable_oneAnalyzing, of TimerFired]
    grows pending statuses reachable_twoCaptured reachable_oneAnalyzing
  show ?thesis by blast
qed

lemma status_step:
  assumes r: "reachable s" and f: "f \<in> set (frames s)" and f': "f' \<in> set (frames (step e s))"
    and id: "frame_id f' = frame_id f"
  shows "advances (status f) (status f') \<and> timestamp f' = timestamp f \<and> imageUrl f' = imageUrl f"
proof -
  from r have wf: "wellFormed s" by (rule reachable_wellFormed)
  then have d: "distinct (map frame_id (frames s))" and lt: "\<forall>g \<in> set (frames s). frame_id g < nextUuid s"
    and fl: "\<forall>g \<in> set (frames s). frame_id g \<in> set (inFlight s) \<longrightarrow> status g = ANALYZING"
    by (simp_all add: wellFormed_def framesInv_def)
  from frames_step[of e s] consider
      (cleared) "frames (step e s) = []"
    | (same) "frames (step e s) = frames s"
    | (captured) img t where "frames (step e s) = frames s @ [\<lparr>frame_id = nextUuid s, timestamp = t,
          imageUrl = img, prompt = None, status = PENDING, errorMessage = None\<rparr>]"
    | (marked) fr where "timer s = Some fr" "frames (step e s) = map (markAnalyzing (frame_id fr)) (frames s)"
    | (settled) x api where "x \<in> set (inFlight s)"
         "frames (step e s) = map (settle x (fst (generateImagePrompt api))) (frames s)"
    by blast
  then show ?thesis
  proof cases
    case cleared
    with f' show ?thesis by simp
  next
    case same
    with d f f' id have "f' = f" by (auto intro: same_id_same_frame)
    then show ?thesis by (simp add: advances_def)
  next
    case captured
    from lt f have "frame_id f < nextUuid s" by simp
    with captured f' id have "f' \<in> set (frames s)" by auto
    with d f id have "f' = f" by (auto intro: same_id_same_frame)
    then show ?thesis by (simp add: advances_def)
  next
    case marked
    with f' obtain g where g: "g \<in> set (frames s)" "f' = markAnalyzing (frame_id fr) g" by auto
    then have "frame_id g = frame_id f" using id by (simp add: markAnalyzing_def split: if_splits)
    with d f g have gf: "g = f" by (auto intro: same_id_same_frame)
    from wf marked have "find (\<lambda>f. status f = PENDING) (frames s) = Some fr" by (simp add: wellFormed_def)
    then have fr: "fr \<in> set (frames s)" "status fr = PENDING"
      using find_Some_set[of "\<lambda>f. status f = PENDING" "frames s" fr] by simp_all
    show ?thesis
    proof (cases "frame_id f = frame_id fr")
      case True
      with d f fr have "f = fr" by (auto intro: same_id_same_frame)
      with g gf fr show ?thesis by (simp add: markAnalyzing_def advances_def)
    next
      case False
      with g gf show ?thesis by (simp add: markAnalyzing_def advances_def)
    qed
  next
    case settled
    with f' obtain g where g: "g \<in> set (frames s)" "f' = settle x (fst (generateImagePrompt api)) g" by auto
    then have "frame_id g = frame_id f" using id by (simp add: settle_def split: if_splits sum.splits)
    with d f g have gf: "g = f" by (auto intro: same_id_same_frame)
    show ?thesis
    proof (cases "frame_id f = x")
      case True
      with fl f settled have "status f = ANALYZING" by simp
      with g gf True show ?thesis by (simp add: settle_def advances_def split: sum.splits)
    next
      case False
      with g gf show ?thesis by (simp add: settle_def advances_def)
    qed
  qed
qed

lemma nextUuid_step: "nextUuid s \<le> nextUuid (step e s)"
  by (cases e)
     (simp_all add: handleFileSelected_def reset_def startAnalysis_def startAnalysis_metadata_def
        startAnalysis_seeked_def stopAnalysis_def processFrame_def processFrame_settled_def
        intervalChanged_def Let_def split: option.splits CaptureTask.splits)

lemma frame_origin_step:
  assumes "g \<in> set (frames (step e s))"
  shows "(\<exists>f \<in> set (frames s). frame_id f = frame_id g) \<or> nextUuid s \<le> frame_id g"
proof -
  from frames_step[of e s] consider
      (cleared) "frames (step e s) = []"
    | (same) "frames (step e s) = frames s"
    | (captured) img t where "frames (step e s) = frames s @ [\<lparr>frame_id = nextUuid s, timestamp = t,
          imageUrl = img, prompt = None, status = PENDING, errorMessage = None\<rparr>]"
    | (marked) fr where "timer s = Some fr"
         "frames (step e s) = map (markAnalyzing (frame_id fr)) (frames s)"
    | (settled) x api where "x \<in> set (inFlight s)"
         "frames (step e s) = map (settle x (fst (generateImagePrompt api))) (frames s)"
    by blast
  then show ?thesis
  proof cases
    case cleared
    with assms show ?thesis by simp
  next
    case same
    with assms show ?thesis by auto
  next
    case captured
    with assms show ?thesis by auto
  next
    case marked
    with assms show ?thesis by (auto simp add: markAnalyzing_def)
  next
    case settled
    with assms show ?thesis by (auto simp add: settle_def split: sum.splits)
  qed
qed

lemma frame_origin_run:
  "g \<in> set (frames (run evs s)) \<Longrightarrow>
   (\<exists>f \<in> set (frames s). frame_id f = frame_id g) \<or> nextUuid s \<le> frame_id g"
proof (induction evs arbitrary: s)
  case Nil
  then show ?case by auto
next
  case (Cons e evs)
  from Cons.prems have "g \<in> set (frames (run evs (step e s)))" by simp
  from Cons.IH[OF this]
  have "(\<exists>f \<in> set (frames (step e s)). frame_id f = frame_id g) \<or> nextUuid (step e s) \<le> frame_id g" .
  then show ?case
  proof
    assume "\<exists>f \<in> set (frames (step e s)). frame_id f = frame_id g"
    then obtain f where "f \<in> set (frames (step e s))" "frame_id f = frame_id g" by blast
    with frame_origin_step[of f e s] show ?thesis by auto
  next
    assume "nextUuid (step e s) \<le> frame_id g"
    with nextUuid_step[of s e] show ?thesis by simp
  qed
qed

lemma advances_stage:
  "advances a b \<Longrightarrow> stage a \<le> stage b \<and> (a = COMPLETED \<or> a = ERROR \<longrightarrow> b = a)"
  by (cases a; cases b) (simp_all add: advances_def)

lemma status_run:
  "reachable s \<Longrightarrow> f \<in> set (frames s) \<Longrightarrow> g \<in> set (frames (run evs s)) \<Longrightarrow>
   frame_id g = frame_id f \<Longrightarrow>
   stage (status f) \<le> stage (status g) \<and> (isTerminal f \<longrightarrow> status g = status f)
   \<and> timestamp g = timestamp f \<and> imageUrl g = imageUrl f"
proof (induction evs arbitrary: s f)
  case Nil
  from Nil.prems(1) have "distinct (map frame_id (frames s))"
    using reachable_wellFormed by (simp add: wellFormed_def framesInv_def)
  with Nil.prems have "g = f" by (auto intro: same_id_same_frame)
  then show ?case by simp
next
  case (Cons e evs)
  from Cons.prems(1) have "\<forall>h \<in> set (frames s). frame_id h < nextUuid s"
    using reachable_wellFormed by (simp add: wellFormed_def framesInv_def)
  with Cons.prems(2) have lt: "frame_id f < nextUuid s" by simp
  from Cons.prems(3) have g: "g \<in> set (frames (run evs (step e s)))" by simp
  from frame_origin_run[OF g] lt Cons.prems(4) nextUuid_step[of s e]
  obtain f' where f': "f' \<in> set (frames (step e s))" "frame_id f' = frame_id g" by auto
  from f' Cons.prems(4) have id: "frame_id f' = frame_id f" by simp
  from status_step[OF Cons.prems(1,2) f'(1) id]
  have one: "advances (status f) (status f')" "timestamp f' = timestamp f" "imageUrl f' = imageUrl f"
    by simp_all
  from Cons.prems(1) have r: "reachable (step e s)" by (rule reachable.step)
  from Cons.IH[OF r f'(1) g] f'(2)
  have rest: "stage (status f') \<le> stage (status g)" "isTerminal f' \<longrightarrow> status g = status f'"
    "timestamp g = timestamp f'" "imageUrl g = imageUrl f'"
    by simp_all
  from advances_stage[OF one(1)] rest one show ?case
    by (auto simp add: isTerminal_def)
qed

text \<open>
  Claim C7. The status of a frame only moves forward through
  PENDING, ANALYZING, then COMPLETED or ERROR. For every step from a reachable state,
  a frame that is still in the list afterwards (the frame with the same identifier)
  has the same status or the next one in the state machine. Over any sequence of
  events, its status never goes back to an earlier stage, and a terminal status never
  changes. Its timestamp and image do not change either. (Identifiers are fresh, so a
  frame discarded with the list never comes back.)
\<close>

theorem status_only_advances:
  assumes r: "reachable s" and f: "f \<in> set (frames s)"
  shows "(f' \<in> set (frames (step e s)) \<and> frame_id f' = frame_id f
            \<longrightarrow> advances (status f) (status f'))
         \<and> (g \<in> set (frames (run evs s)) \<and> frame_id g = frame_id f
            \<longrightarrow> stage (status f) \<le> stage (status g)
                \<and> (isTerminal f \<longrightarrow> status g = status f)
                \<and> timestamp g = timestamp f \<and> imageUrl g = imageUrl f)"
  using status_step[OF r f, of f' e] status_run[OF r f, of g evs] by blast

theorem status_only_advances_witness:
  "reachable oneAnalyzing
   \<and> hd (frames oneAnalyzing) \<in> set (frames oneAnalyzing)
   \<and> hd (frames firstDone) \<in> set (frames (step (Settled 0 describing) oneAnalyzing))
   \<and> frame_id (hd (frames firstDone)) = frame_id (hd (frames oneAnalyzing))
   \<and> status (hd (frames oneAnalyzing)) = ANALYZING
   \<and> status (hd (frames firstDone)) = COMPLETED
   \<and> advances (status (hd (frames oneAnalyzing))) (status (hd (frames firstDone)))
   \<and> hd (frames (run [Settled 0 describing, TimerFired, Seeked 0 still] oneAnalyzing))
        \<in> set (frames (run [Settled 0 describing, TimerFired, Seeked 0 still] oneAnalyzing))
   \<and> status (hd (frames (run [Settled 0 describing, TimerFired, Seeked 0 still] oneAnalyzing)))
        = COMPLETED
   \<and> stage (status (hd (frames oneAnalyzing)))
        \<le> stage (status (hd (frames (run [Settled 0 describing, TimerFired, Seeked 0 still]
                                         oneAnalyzing))))"
proof -
  let ?later = "run [Settled 0 describing, TimerFired, Seeked 0 still] oneAnalyzing"
  have a: "hd (frames oneAnalyzing) \<in> set (frames oneAnalyzing)"
    by (simp add: oneAnalyzing_state)
  have b: "hd (frames firstDone) \<in> set (frames (step (Settled 0 describing) oneAnalyzing))"
    unfolding firstDone_def[symmetric] by (simp add: firstDone_state)
  have c: "frame_id (hd (frames firstDone)) = frame_id (hd (frames oneAnalyzing))"
    by (simp add: firstDone_state oneAnalyzing_state)
  have d: "status (hd (frames oneAnalyzing)) = ANALYZING"
    "status (hd (frames firstDone)) = COMPLETED"
    by (simp_all add: firstDone_state oneAnalyzing_state)
  have later: "map status (frames ?later) = [COMPLETED, ANALYZING, PENDING]"
    "map frame_id (frames ?later) = [0, 1, 2]"
    by (simp_all add: oneAnalyzing_state eval_defs generateImagePrompt_describing)
  then have e: "hd (frames ?later) \<in> set (frames ?later)" "status (hd (frames ?later)) = COMPLETED"
    "frame_id (hd (frames ?later)) = frame_id (hd (frames oneAnalyzing))"
    by (auto simp add: oneAnalyzing_state map_eq_Cons_conv simp del: run_Cons step.simps)
  from status_only_advances[OF reachable_oneAnalyzing a,
      of "hd (frames firstDone)" "Settled 0 describing" "hd (frames ?later)"
         "[Settled 0 describing, TimerFired, Seeked 0 still]"]
    a b c d e reachable_oneAnalyzing
  show ?thesis by blast
qed

text \<open>
  Claim C8. Frames are analysed in the order of the list, which is the order of
  capture: whenever a step from a reachable state moves the frame at some position
  into ANALYZING, that step is the callback of the timeout, the frame was the first
  PENDING frame of the list, and no frame before it was PENDING.
\<close>

theorem analysis_in_list_order:
  assumes r: "reachable s" and i: "i < length (frames (step e s))"
    and an: "status (frames (step e s) ! i) = ANALYZING"
    and new: "\<not> (i < length (frames s) \<and> status (frames s ! i) = ANALYZING)"
  shows "e = TimerFired \<and> i < length (frames s) \<and> status (frames s ! i) = PENDING
         \<and> find (\<lambda>f. status f = PENDING) (frames s) = Some (frames s ! i)
         \<and> (\<forall>j<i. status (frames s ! j) \<noteq> PENDING)
         \<and> frame_id (frames (step e s) ! i) = frame_id (frames s ! i)"
proof -
  from r have wf: "wellFormed s" by (rule reachable_wellFormed)
  then have d: "distinct (map frame_id (frames s))"
    by (simp_all add: wellFormed_def framesInv_def)
  from frames_step[of e s] consider
      (cleared) "frames (step e s) = []"
    | (same) "frames (step e s) = frames s"
    | (captured) img t where "frames (step e s) = frames s @ [\<lparr>frame_id = nextUuid s, timestamp = t,
          imageUrl = img, prompt = None, status = PENDING, errorMessage = None\<rparr>]"
    | (marked) fr where "e = TimerFired" "timer s = Some fr" "frames (step e s) = map (markAnalyzing (frame_id fr)) (frames s)"
    | (settled) x api where "x \<in> set (inFlight s)"
         "frames (step e s) = map (settle x (fst (generateImagePrompt api))) (frames s)"
    by blast
  then show ?thesis
  proof cases
    case cleared
    with i show ?thesis by simp
  next
    case same
    with i an new show ?thesis by simp
  next
    case captured
    with i an new show ?thesis by (cases "i < length (frames s)") (auto simp add: nth_append)
  next
    case settled
    with i an new show ?thesis by (auto simp add: settle_def split: if_splits sum.splits)
  next
    case marked
    with i have il: "i < length (frames s)" by simp
    with marked an new have same_id: "frame_id (frames s ! i) = frame_id fr"
      by (auto simp add: markAnalyzing_def split: if_splits)
    from wf marked have fnd: "find (\<lambda>f. status f = PENDING) (frames s) = Some fr" by (simp add: wellFormed_def)
    then obtain i' where i': "i' < length (frames s)" "status (frames s ! i') = PENDING"
      "fr = frames s ! i'" "\<forall>j<i'. status (frames s ! j) \<noteq> PENDING"
      by (auto simp add: find_Some_iff)
    from i' il d same_id have "frames s ! i = frames s ! i'"
      by (auto intro: same_id_same_frame)
    moreover from d have "distinct (frames s)" by (simp add: distinct_map)
    ultimately have "i = i'" using il i' by (simp add: nth_eq_iff_index_eq)
    with i' marked il fnd show ?thesis by (simp add: markAnalyzing_def)
  qed
qed

theorem analysis_in_list_order_witness:
  "reachable firstDone
   \<and> 1 < length (frames (step TimerFired firstDone))
   \<and> status (frames (step TimerFired firstDone) ! 1) = ANALYZING
   \<and> \<not> (1 < length (frames firstDone) \<and> status (frames firstDone ! 1) = ANALYZING)
   \<and> status (frames firstDone ! 1) = PENDING
   \<and> find (\<lambda>f. status f = PENDING) (frames firstDone) = Some (frames firstDone ! 1)
   \<and> status (frames firstDone ! 0) \<noteq> PENDING"
proof -
  have a: "1 < length (frames (step TimerFired firstDone))"
    by (simp add: firstDone_state processFrame_def)
  have b: "status (frames (step TimerFired firstDone) ! 1) = ANALYZING"
    by (simp add: firstDone_state processFrame_def)
  have c: "\<not> (1 < length (frames firstDone) \<and> status (frames firstDone ! 1) = ANALYZING)"
    by (simp add: firstDone_state)
  from analysis_in_list_order[OF reachable_firstDone a b c] a b c reachable_firstDone
  show ?thesis by auto
qed

section \<open>Failures and cancellation\<close>

lemma reconcile_schedules:
  assumes "isProcessing s" "\<not> currentAborted s"
    "\<not> list_ex (\<lambda>f. status f = ANALYZING) (frames s)"
    "find (\<lambda>f. status f = PENDING) (frames s) = Some p"
  shows "reconcile s = s\<lparr>timer := Some p\<rparr>"
  using assms by (auto simp add: reconcile_def Let_def currentAborted_def aborted_def split: option.splits)

lemma find_in_map: "find P (map h xs) = map_option h (find (P \<circ> h) xs)"
  by (induction xs) simp_all

lemma only_one_analyzing:
  "length (filter P xs) \<le> 1 \<Longrightarrow> x \<in> set xs \<Longrightarrow> y \<in> set xs \<Longrightarrow> P x \<Longrightarrow> P y \<Longrightarrow> x = y"
proof (induction xs)
  case Nil
  then show ?case by simp
next
  case (Cons a xs)
  show ?case
  proof (cases "P a")
    case True
    with Cons.prems(1) have "filter P xs = []" by simp
    then have "\<forall>z \<in> set xs. \<not> P z" by (simp add: filter_empty_conv)
    with Cons.prems show ?thesis by auto
  next
    case False
    with Cons show ?thesis by auto
  qed
qed

lemma js_or_nonempty: "b \<noteq> [] \<Longrightarrow> js_or a b \<noteq> []"
  by (simp add: js_or_def split: option.splits)

lemma analysisFailed_nonempty: "analysisFailed \<noteq> []"
  by (simp add: analysisFailed_def)

lemma loop_error_nonempty:
  "generateImagePrompt_loop api retries waited = (Inl m, w) \<Longrightarrow> m \<noteq> []"
proof (induction api retries waited rule: generateImagePrompt_loop.induct)
  case (1 api retries waited)
  show ?case
  proof (cases "api retries")
    case (Resolves t)
    with "1.prems" show ?thesis by (simp add: loop_resolves)
  next
    case (Rejects error)
    show ?thesis
    proof (cases "isRateLimit error \<and> retries < maxRetries")
      case True
      with Rejects "1.prems" have
        "generateImagePrompt_loop api (retries + 1) (waited @ [2 ^ (retries + 1) * 1000]) = (Inl m, w)"
        by (simp add: loop_retry[of api retries error])
      with "1.IH"[OF Rejects True] show ?thesis .
    next
      case False
      with Rejects "1.prems" have "m = js_or (message error) analysisFailed"
        by (simp add: loop_throws[of api retries error])
      then show ?thesis by (simp add: js_or_nonempty analysisFailed_nonempty)
    qed
  qed
qed

lemma generateImagePrompt_error_nonempty:
  "fst (generateImagePrompt api) = Inl m \<Longrightarrow> m \<noteq> []"
  using loop_error_nonempty[of api 0 "[]" m "snd (generateImagePrompt api)"]
  by (simp add: generateImagePrompt_def prod_eq_iff)

text \<open>
  Claim C9. When the analysis of a frame fails (\<open>generateImagePrompt\<close> throws, for a
  failure that is not a rate limit or after its retries are exhausted), only that
  frame changes: it becomes ERROR with the non-empty message of the error. The run
  is not aborted: \<open>isProcessing\<close> and the controllers are as before, and if the run
  was not cancelled and a PENDING frame exists, the first one is scheduled (the
  timeout holds it) and the callback of the timeout puts it under analysis.
\<close>

theorem frame_failure_keeps_run_going:
  assumes r: "reachable s" and proc: "isProcessing s" and na: "\<not> currentAborted s"
    and call: "fid \<in> set (inFlight s)" and fail: "fst (generateImagePrompt api) = Inl m"
    and mem: "f \<in> set (frames s)" and fid: "frame_id f = fid"
    and pend: "find (\<lambda>g. status g = PENDING) (frames s) = Some p"
  shows "frames (step (Settled fid api) s)
           = map (\<lambda>g. if g = f then g\<lparr>status := ERROR, errorMessage := Some m\<rparr> else g) (frames s)
         \<and> m \<noteq> []
         \<and> isProcessing (step (Settled fid api) s)
         \<and> controllers (step (Settled fid api) s) = controllers s
         \<and> abortControllerRef (step (Settled fid api) s) = abortControllerRef s
         \<and> timer (step (Settled fid api) s) = Some p
         \<and> p \<in> set (frames (step (Settled fid api) s)) \<and> status p = PENDING
         \<and> frames (step TimerFired (step (Settled fid api) s))
             = map (markAnalyzing (frame_id p)) (frames (step (Settled fid api) s))
         \<and> frame_id p \<in> set (inFlight (step TimerFired (step (Settled fid api) s)))"
proof -
  let ?upd = "\<lambda>g. if frame_id g = fid then g\<lparr>status := ERROR, errorMessage := Some m\<rparr> else g"
  let ?s1 = "s\<lparr>frames := map ?upd (frames s), inFlight := remove1 fid (inFlight s)\<rparr>"
  from r have wf: "wellFormed s" by (rule reachable_wellFormed)
  then have d: "distinct (map frame_id (frames s))"
    and fl: "\<forall>g \<in> set (frames s). frame_id g \<in> set (inFlight s) \<longrightarrow> status g = ANALYZING"
    and one: "length (filter (\<lambda>f. status f = ANALYZING) (frames s)) \<le> 1"
    by (simp_all add: wellFormed_def framesInv_def)
  from fl mem fid call have fan: "status f = ANALYZING" by simp
  have same: "\<And>g. g \<in> set (frames s) \<Longrightarrow> (frame_id g = fid) = (g = f)"
    using d mem fid by (auto intro: same_id_same_frame)
  have others: "\<And>g. g \<in> set (frames s) \<Longrightarrow> frame_id g \<noteq> fid \<Longrightarrow> status g \<noteq> ANALYZING"
  proof
    fix g assume g: "g \<in> set (frames s)" "frame_id g \<noteq> fid" "status g = ANALYZING"
    with one mem fan have "g = f"
      by (intro only_one_analyzing[of "\<lambda>f. status f = ANALYZING" "frames s"]) simp_all
    with g fid show False by simp
  qed
  have noan: "\<not> list_ex (\<lambda>f. status f = ANALYZING) (map ?upd (frames s))"
    using others by (auto simp add: list_ex_iff)
  from pend have p: "p \<in> set (frames s)" "status p = PENDING"
    using find_Some_set[of "\<lambda>g. status g = PENDING" "frames s" p] by simp_all
  with fl call have pid: "frame_id p \<noteq> fid" by auto
  have "find (\<lambda>g. status g = PENDING) (map ?upd (frames s))
          = map_option ?upd (find ((\<lambda>g. status g = PENDING) \<circ> ?upd) (frames s))"
    by (rule find_in_map)
  also have "find ((\<lambda>g. status g = PENDING) \<circ> ?upd) (frames s)
               = find (\<lambda>g. status g = PENDING) (frames s)"
    using fl call by (intro find_cong) auto
  finally have fnd: "find (\<lambda>g. status g = PENDING) (map ?upd (frames s)) = Some p"
    using pend pid by simp
  have settled: "step (Settled fid api) s = reconcile ?s1"
    using call fail by (simp add: processFrame_settled_def)
  have na1: "\<not> currentAborted ?s1"
    using na by (simp add: currentAborted_def aborted_def split: option.splits)
  have "reconcile ?s1 = ?s1\<lparr>timer := Some p\<rparr>"
    using proc na1 noan fnd
    by (intro reconcile_schedules) simp_all
  with settled have s': "step (Settled fid api) s = ?s1\<lparr>timer := Some p\<rparr>" by simp
  have fr: "map ?upd (frames s)
              = map (\<lambda>g. if g = f then g\<lparr>status := ERROR, errorMessage := Some m\<rparr> else g) (frames s)"
    using same by (intro map_cong) auto
  have pmem: "p \<in> set (map ?upd (frames s))"
  proof -
    from p(1) have "?upd p \<in> ?upd ` set (frames s)" by (rule imageI)
    with pid show ?thesis by simp
  qed
  from fail have m: "m \<noteq> []" by (rule generateImagePrompt_error_nonempty)
  show ?thesis
    unfolding s' using fr pmem p(2) m proc
    by (simp add: processFrame_def markAnalyzing_def)
qed

theorem frame_failure_keeps_run_going_witness:
  "reachable oneAnalyzing \<and> isProcessing oneAnalyzing \<and> \<not> currentAborted oneAnalyzing
   \<and> 0 \<in> set (inFlight oneAnalyzing)
   \<and> fst (generateImagePrompt failing) = Inl ''500 Internal''
   \<and> map status (frames (step (Settled 0 failing) oneAnalyzing)) = [ERROR, PENDING]
   \<and> map errorMessage (frames (step (Settled 0 failing) oneAnalyzing)) = [Some ''500 Internal'', None]
   \<and> isProcessing (step (Settled 0 failing) oneAnalyzing)
   \<and> timer (step (Settled 0 failing) oneAnalyzing) = Some (frames oneAnalyzing ! 1)
   \<and> map status (frames (step TimerFired (step (Settled 0 failing) oneAnalyzing))) = [ERROR, ANALYZING]"
proof -
  have a: "isProcessing oneAnalyzing" "\<not> currentAborted oneAnalyzing" "0 \<in> set (inFlight oneAnalyzing)"
    by (simp_all add: oneAnalyzing_state currentAborted_def aborted_def)
  have b: "fst (generateImagePrompt failing) = Inl ''500 Internal''"
    by (simp add: generateImagePrompt_failing)
  have c: "frames oneAnalyzing ! 0 \<in> set (frames oneAnalyzing)" "frame_id (frames oneAnalyzing ! 0) = 0"
    by (simp_all add: oneAnalyzing_state)
  have d: "find (\<lambda>g. status g = PENDING) (frames oneAnalyzing) = Some (frames oneAnalyzing ! 1)"
    by (simp add: oneAnalyzing_state)
  note t = frame_failure_keeps_run_going[OF reachable_oneAnalyzing a b c d]
  have e: "map status (frames (step (Settled 0 failing) oneAnalyzing)) = [ERROR, PENDING]"
    "map errorMessage (frames (step (Settled 0 failing) oneAnalyzing)) = [Some ''500 Internal'', None]"
    "map status (frames (step TimerFired (step (Settled 0 failing) oneAnalyzing))) = [ERROR, ANALYZING]"
    using t by (simp_all add: oneAnalyzing_state markAnalyzing_def del: step.simps)
  from t a b e reachable_oneAnalyzing show ?thesis by blast
qed

lemma idle_step:
  assumes "\<not> isProcessing s" "timer s = None" "\<not> isStart e"
  shows "\<not> isProcessing (step e s) \<and> timer (step e s) = None"
proof (cases e)
  case (FileSelected name url)
  then show ?thesis by (simp add: handleFileSelected_def reconcile_idle)
next
  case Reset
  then show ?thesis by (simp add: reset_def reconcile_idle)
next
  case (StartAnalysis ctx)
  with assms show ?thesis by simp
next
  case (MetadataLoaded k d)
  with assms show ?thesis
    by (simp add: startAnalysis_metadata_def Let_def split: CaptureTask.splits)
next
  case (Seeked k img)
  with assms show ?thesis
    by (simp add: startAnalysis_seeked_def Let_def reconcile_idle split: CaptureTask.splits)
next
  case TimerFired
  with assms show ?thesis by simp
next
  case (Settled fid api)
  with assms show ?thesis by (simp add: processFrame_settled_def reconcile_idle)
next
  case StopAnalysis
  with assms show ?thesis by (simp add: stopAnalysis_def Let_def)
next
  case (IntervalChanged parsed)
  with assms show ?thesis by (simp add: intervalChanged_def)
qed

lemma idle_run:
  "\<not> isProcessing s \<Longrightarrow> timer s = None \<Longrightarrow> list_all (\<lambda>e. \<not> isStart e) evs \<Longrightarrow>
   \<not> isProcessing (run evs s) \<and> timer (run evs s) = None"
proof (induction evs arbitrary: s)
  case Nil
  then show ?case by simp
next
  case (Cons e evs)
  from Cons.prems have "\<not> isProcessing (step e s) \<and> timer (step e s) = None"
    by (intro idle_step) simp_all
  with Cons show ?case by simp
qed

lemma stopAnalysis_running:
  assumes "isProcessing s"
  shows "stopAnalysis s = s\<lparr>controllers := abortCurrent s, isProcessing := False, timer := None\<rparr>"
  using assms by (simp add: stopAnalysis_def Let_def reconcile_idle)

text \<open>
  Claim C5, as the code has it. Stop sets the cancellation token and clears
  \<open>isProcessing\<close>, and the frames and the calls in flight stay as they are. The
  result of a call that was in flight is not discarded: when it arrives it is applied
  to its frame, which becomes COMPLETED with the prompt or ERROR with the message,
  and no other frame changes. What stop prevents is scheduling: no timeout is pending
  after stop, nor after the result has arrived, nor after any later events, until the
  user starts a new run.
\<close>

theorem stop_keeps_result_in_flight:
  assumes proc: "isProcessing s" and ref: "abortControllerRef s = Some c"
    and c: "c < length (controllers s)" and call: "fid \<in> set (inFlight s)"
    and evs: "list_all (\<lambda>e. \<not> isStart e) evs"
  shows "currentAborted (step StopAnalysis s)
         \<and> \<not> isProcessing (step StopAnalysis s)
         \<and> frames (step StopAnalysis s) = frames s
         \<and> inFlight (step StopAnalysis s) = inFlight s
         \<and> frames (step (Settled fid api) (step StopAnalysis s))
             = map (settle fid (fst (generateImagePrompt api))) (frames s)
         \<and> timer (step StopAnalysis s) = None
         \<and> timer (step (Settled fid api) (step StopAnalysis s)) = None
         \<and> timer (run evs (step StopAnalysis s)) = None
         \<and> \<not> isProcessing (run evs (step StopAnalysis s))"
proof -
  let ?s1 = "s\<lparr>controllers := abortCurrent s, isProcessing := False, timer := None\<rparr>"
  from proc have s1: "step StopAnalysis s = ?s1" by (simp add: stopAnalysis_running)
  from ref c have ab: "currentAborted ?s1"
    by (simp add: currentAborted_def aborted_def abortCurrent_def)
  have fr: "frames (step (Settled fid api) ?s1)
              = map (settle fid (fst (generateImagePrompt api))) (frames s)"
    using call
    by (cases "fst (generateImagePrompt api)") (simp_all add: processFrame_settled_def settle_def)
  have t: "timer (step (Settled fid api) ?s1) = None"
    using call by (simp add: processFrame_settled_def reconcile_idle)
  have "\<not> isProcessing (run evs ?s1) \<and> timer (run evs ?s1) = None"
    using evs by (intro idle_run) simp_all
  with ab fr t show ?thesis unfolding s1 by simp
qed

theorem stop_keeps_result_in_flight_witness:
  "isProcessing oneAnalyzing \<and> abortControllerRef oneAnalyzing = Some 0
   \<and> 0 < length (controllers oneAnalyzing) \<and> 0 \<in> set (inFlight oneAnalyzing)
   \<and> list_all (\<lambda>e. \<not> isStart e) [Seeked 0 still, TimerFired]
   \<and> currentAborted (step StopAnalysis oneAnalyzing)
   \<and> map status (frames (step (Settled 0 describing) (step StopAnalysis oneAnalyzing)))
        = [COMPLETED, PENDING]
   \<and> map prompt (frames (step (Settled 0 describing) (step StopAnalysis oneAnalyzing)))
        = [Some ''a red kite'', None]
   \<and> timer (run [Seeked 0 still, TimerFired] (step StopAnalysis oneAnalyzing)) = None"
proof -
  have a: "isProcessing oneAnalyzing" "abortControllerRef oneAnalyzing = Some 0"
    "0 < length (controllers oneAnalyzing)" "0 \<in> set (inFlight oneAnalyzing)"
    by (simp_all add: oneAnalyzing_state)
  have b: "list_all (\<lambda>e. \<not> isStart e) [Seeked 0 still, TimerFired]"
    by simp
  note t = stop_keeps_result_in_flight[OF a b, of describing]
  have c: "map status (frames (step (Settled 0 describing) (step StopAnalysis oneAnalyzing)))
             = [COMPLETED, PENDING]"
    "map prompt (frames (step (Settled 0 describing) (step StopAnalysis oneAnalyzing)))
             = [Some ''a red kite'', None]"
    using t
    by (simp_all add: oneAnalyzing_state settle_def generateImagePrompt_describing del: step.simps)
  from t a b c show ?thesis by blast
qed

text \<open>
  The claim C5 as stated fails: in the example run, the user stops while the first
  frame is under analysis; when the description arrives, the frame becomes COMPLETED
  and holds the prompt, although the run was stopped.
\<close>

theorem stop_discards_result_counterexample:
  "currentAborted stopped \<and> \<not> isProcessing stopped \<and> inFlight stopped = [0]
   \<and> map status (frames stopped) = [ANALYZING, PENDING]
   \<and> map prompt (frames stopped) = [None, None]
   \<and> map status (frames (step (Settled 0 describing) stopped)) = [COMPLETED, PENDING]
   \<and> map prompt (frames (step (Settled 0 describing) stopped)) = [Some ''a red kite'', None]
   \<and> map status (frames (step (Settled 0 failing) stopped)) = [ERROR, PENDING]
   \<and> map errorMessage (frames (step (Settled 0 failing) stopped)) = [Some ''500 Internal'', None]"
proof -
  have s: "stopped = oneAnalyzing\<lparr>controllers := [True], isProcessing := False\<rparr>"
    by (simp add: stopped_def oneAnalyzing_state stopAnalysis_def Let_def abortCurrent_def
        reconcile_def)
  show ?thesis
    unfolding s
    by (simp add: oneAnalyzing_state currentAborted_def aborted_def processFrame_settled_def
        reconcile_def Let_def generateImagePrompt_describing generateImagePrompt_failing)
qed

section \<open>The capture loop\<close>

lemma ceiling_next:
  fixes D :: real and t i :: int
  assumes "1 \<le> i" "real_of_int (t + i) < D"
  shows "nat \<lceil>(D - real_of_int t) / real_of_int i\<rceil>
           = Suc (nat \<lceil>(D - real_of_int (t + i)) / real_of_int i\<rceil>)"
proof -
  from assms have i: "0 < real_of_int i" by simp
  have "(D - real_of_int t) / real_of_int i = (D - real_of_int (t + i)) / real_of_int i + 1"
    using i by (simp add: field_simps)
  then have "\<lceil>(D - real_of_int t) / real_of_int i\<rceil> = \<lceil>(D - real_of_int (t + i)) / real_of_int i\<rceil> + 1"
    by simp
  moreover have "0 < \<lceil>(D - real_of_int (t + i)) / real_of_int i\<rceil>"
  proof -
    have "0 < (D - real_of_int (t + i)) / real_of_int i"
      using assms i by simp
    then show ?thesis by simp
  qed
  ultimately show ?thesis by (simp add: nat_add_distrib)
qed

lemma ceiling_last:
  fixes D :: real and t i :: int
  assumes "1 \<le> i" "real_of_int t < D" "\<not> real_of_int (t + i) < D"
  shows "nat \<lceil>(D - real_of_int t) / real_of_int i\<rceil> = Suc 0"
proof -
  from assms have i: "0 < real_of_int i" by simp
  have "0 < (D - real_of_int t) / real_of_int i" using assms i by simp
  moreover have "(D - real_of_int t) / real_of_int i \<le> 1"
    using assms i by (simp add: field_simps)
  ultimately have "\<lceil>(D - real_of_int t) / real_of_int i\<rceil> = 1"
    by (intro ceiling_unique) simp_all
  then show ?thesis by simp
qed

lemma seeked_idle:
  assumes "\<not> (k < length (tasks s) \<and> (\<exists>v. tasks s ! k = AwaitingSeek v))"
  shows "step (Seeked k img) s = s"
  using assms by (auto simp add: startAnalysis_seeked_def split: CaptureTask.splits)

lemma seeked_idle_run:
  assumes "\<not> (k < length (tasks s) \<and> (\<exists>v. tasks s ! k = AwaitingSeek v))"
  shows "run (map (Seeked k) imgs) s = s"
  using assms by (induction imgs) (simp_all add: seeked_idle del: step.simps)

lemma loopHead_controllers:
  "controllers s' = controllers s \<Longrightarrow> loopHead s' v = loopHead s v"
  by (simp add: loopHead_def aborted_def)

lemma seeked_step:
  assumes "k < length (tasks s)" "tasks s ! k = AwaitingSeek v"
  shows "frames (step (Seeked k img) s)
           = frames s @ [\<lparr>frame_id = nextUuid s, timestamp = time v, imageUrl = img,
                          prompt = None, status = PENDING, errorMessage = None\<rparr>]"
    and "nextUuid (step (Seeked k img) s) = Suc (nextUuid s)"
    and "controllers (step (Seeked k img) s) = controllers s"
    and "length (tasks (step (Seeked k img) s)) = length (tasks s)"
    and "tasks (step (Seeked k img) s) ! k
           = loopHead s (v\<lparr>capturedCount := capturedCount v + 1, time := time v + loopInterval v\<rparr>)"
proof -
  let ?s1 = "s\<lparr>frames := frames s @ [\<lparr>frame_id = nextUuid s, timestamp = time v, imageUrl = img,
                          prompt = None, status = PENDING, errorMessage = None\<rparr>],
               nextUuid := Suc (nextUuid s),
               progress := js_mul (js_div (Num (real_of_int (capturedCount v + 1))) (totalFrames v))
                                  (Num 50)\<rparr>"
  let ?v' = "v\<lparr>capturedCount := capturedCount v + 1, time := time v + loopInterval v\<rparr>"
  have eq: "step (Seeked k img) s = reconcile (?s1\<lparr>tasks := (tasks s)[k := loopHead ?s1 ?v']\<rparr>)"
    using assms by (simp add: startAnalysis_seeked_def Let_def)
  have lh: "loopHead ?s1 ?v' = loopHead s ?v'"
    by (rule loopHead_controllers) simp
  show "frames (step (Seeked k img) s)
           = frames s @ [\<lparr>frame_id = nextUuid s, timestamp = time v, imageUrl = img,
                          prompt = None, status = PENDING, errorMessage = None\<rparr>]"
    unfolding eq by simp
  show "nextUuid (step (Seeked k img) s) = Suc (nextUuid s)"
    unfolding eq by simp
  show "controllers (step (Seeked k img) s) = controllers s"
    unfolding eq by simp
  show "length (tasks (step (Seeked k img) s)) = length (tasks s)"
    unfolding eq by simp
  show "tasks (step (Seeked k img) s) ! k = loopHead s ?v'"
    unfolding eq lh using assms(1) by simp
qed

lemma seeked_run:
  assumes "k < length (tasks s)" "tasks s ! k = AwaitingSeek v" "\<not> aborted s (signal v)"
    "duration v = Num D" "1 \<le> loopInterval v" "real_of_int (time v) < D"
  shows "frames (run (map (Seeked k) imgs) s)
           = frames s @ capturedFrames (nextUuid s) (time v) (loopInterval v)
               (take (nat \<lceil>(D - real_of_int (time v)) / real_of_int (loopInterval v)\<rceil>) imgs)
         \<and> (nat \<lceil>(D - real_of_int (time v)) / real_of_int (loopInterval v)\<rceil> \<le> length imgs
              \<longrightarrow> tasks (run (map (Seeked k) imgs) s) ! k = Finished)"
  using assms
proof (induction imgs arbitrary: s v)
  case Nil
  from Nil.prems have "0 < (D - real_of_int (time v)) / real_of_int (loopInterval v)" by simp
  then have "0 < \<lceil>(D - real_of_int (time v)) / real_of_int (loopInterval v)\<rceil>" by simp
  then show ?case by simp
next
  case (Cons img imgs)
  let ?s' = "step (Seeked k img) s"
  let ?v' = "v\<lparr>capturedCount := capturedCount v + 1, time := time v + loopInterval v\<rparr>"
  let ?n = "nat \<lceil>(D - real_of_int (time v)) / real_of_int (loopInterval v)\<rceil>"
  note st = seeked_step[OF Cons.prems(1,2), of img]
  show ?case
  proof (cases "real_of_int (time v + loopInterval v) < D")
    case True
    with Cons.prems have task: "tasks ?s' ! k = AwaitingSeek ?v'"
      by (simp add: st loopHead_def del: step.simps)
    have k: "k < length (tasks ?s')" using Cons.prems(1) by (simp only: st)
    have na: "\<not> aborted ?s' (signal ?v')"
      using Cons.prems(3) st(3) by (simp add: aborted_def)
    have n: "?n = Suc (nat \<lceil>(D - real_of_int (time ?v')) / real_of_int (loopInterval ?v')\<rceil>)"
      using ceiling_next[OF Cons.prems(5) True] by simp
    from Cons.IH[OF k task na] Cons.prems(4,5) True
    have IH: "frames (run (map (Seeked k) imgs) ?s')
                = frames ?s' @ capturedFrames (nextUuid ?s') (time ?v') (loopInterval ?v')
                    (take (nat \<lceil>(D - real_of_int (time ?v')) / real_of_int (loopInterval ?v')\<rceil>) imgs)
              \<and> (nat \<lceil>(D - real_of_int (time ?v')) / real_of_int (loopInterval ?v')\<rceil> \<le> length imgs
                   \<longrightarrow> tasks (run (map (Seeked k) imgs) ?s') ! k = Finished)"
      by simp
    have run: "run (map (Seeked k) (img # imgs)) s = run (map (Seeked k) imgs) ?s'"
      by simp
    show ?thesis
      unfolding run n using IH by (simp add: st del: step.simps)
  next
    case False
    with Cons.prems have task: "tasks ?s' ! k = Finished"
      by (simp add: st loopHead_def del: step.simps)
    then have idle: "run (map (Seeked k) imgs) ?s' = ?s'"
      by (intro seeked_idle_run) simp
    have n: "?n = Suc 0"
      using ceiling_last[OF Cons.prems(5,6) False] .
    have run: "run (map (Seeked k) (img # imgs)) s = run (map (Seeked k) imgs) ?s'"
      by simp
    show ?thesis
      unfolding run idle n using task by (simp add: st del: step.simps)
  qed
qed

lemma capturedFrames_length [simp]: "length (capturedFrames uid t i imgs) = length imgs"
  by (induction imgs arbitrary: uid t) simp_all

lemma startAnalysis_begins:
  assumes "videoSrc s \<noteq> None"
  shows "frames (step (StartAnalysis True) s) = []"
    and "nextUuid (step (StartAnalysis True) s) = nextUuid s"
    and "controllers (step (StartAnalysis True) s) = controllers s @ [False]"
    and "tasks (step (StartAnalysis True) s)
           = tasks s @ [AwaitingMetadata (length (controllers s)) (interval (config s))]"
  using assms by (auto simp add: startAnalysis_def Let_def)

lemma metadata_resumes:
  assumes "tasks s = ts @ [AwaitingMetadata c cfg]"
  shows "step (MetadataLoaded (length ts) d) s
           = s\<lparr>tasks := ts @ [loopHead s \<lparr>signal = c, duration = d, loopInterval = max 1 cfg,
                                  totalFrames = js_floor (js_div d (Num (real_of_int (max 1 cfg)))),
                                  capturedCount = 0, time = 0\<rparr>]\<rparr>"
  using assms by (simp add: startAnalysis_metadata_def Let_def)

lemma ceiling_count:
  fixes D :: real and i :: int
  assumes "1 \<le> i" "0 < D"
  shows "1 \<le> nat \<lceil>D / real_of_int i\<rceil>"
    and "\<forall>j < nat \<lceil>D / real_of_int i\<rceil>. real_of_int (int j * i) < D"
    and "D \<le> real_of_int (int (nat \<lceil>D / real_of_int i\<rceil>) * i)"
    and "nat \<lceil>D / real_of_int i\<rceil>
           = (if D / real_of_int i = of_int \<lfloor>D / real_of_int i\<rfloor>
              then nat \<lfloor>D / real_of_int i\<rfloor> else nat \<lfloor>D / real_of_int i\<rfloor> + 1)"
proof -
  from assms have i: "0 < real_of_int i" by simp
  with assms have pos: "0 < D / real_of_int i" by simp
  then have c: "0 < \<lceil>D / real_of_int i\<rceil>" by simp
  then show "1 \<le> nat \<lceil>D / real_of_int i\<rceil>" by linarith
  show "\<forall>j < nat \<lceil>D / real_of_int i\<rceil>. real_of_int (int j * i) < D"
  proof (intro allI impI)
    fix j assume "j < nat \<lceil>D / real_of_int i\<rceil>"
    then have "int j < \<lceil>D / real_of_int i\<rceil>" by simp
    then have "real_of_int (int j) < D / real_of_int i" by (simp add: less_ceiling_iff)
    with i show "real_of_int (int j * i) < D" by (simp add: field_simps)
  qed
  have "D / real_of_int i \<le> real_of_int \<lceil>D / real_of_int i\<rceil>" by simp
  with i have "D \<le> real_of_int \<lceil>D / real_of_int i\<rceil> * real_of_int i"
    by (simp only: pos_divide_le_eq)
  with c show "D \<le> real_of_int (int (nat \<lceil>D / real_of_int i\<rceil>) * i)" by simp
  from pos have "0 \<le> \<lfloor>D / real_of_int i\<rfloor>" by simp
  then show "nat \<lceil>D / real_of_int i\<rceil>
           = (if D / real_of_int i = of_int \<lfloor>D / real_of_int i\<rfloor>
              then nat \<lfloor>D / real_of_int i\<rfloor> else nat \<lfloor>D / real_of_int i\<rfloor> + 1)"
    by (simp add: ceiling_altdef nat_add_distrib)
qed

lemma map_timestamp_update:
  assumes "\<And>f. timestamp (upd f) = timestamp f"
  shows "map timestamp (map (\<lambda>f. if frame_id f = x then upd f else f) fs) = map timestamp fs"
  using assms by (induction fs) auto

lemma analysis_event_keeps:
  assumes "captureEvent k e" "\<forall>img. e \<noteq> Seeked k img"
  shows "map timestamp (frames (step e s)) = map timestamp (frames s)"
    and "tasks (step e s) = tasks s"
    and "controllers (step e s) = controllers s"
proof -
  from assms consider (timer) "e = TimerFired" | (settled) fid api where "e = Settled fid api"
    | (interval) parsed where "e = IntervalChanged parsed"
    by (cases e) auto
  then have "map timestamp (frames (step e s)) = map timestamp (frames s)
             \<and> tasks (step e s) = tasks s \<and> controllers (step e s) = controllers s"
  proof cases
    case timer
    then show ?thesis
      by (cases "timer s") (simp_all add: processFrame_def map_timestamp_update)
  next
    case settled
    then show ?thesis
      by (cases "fst (generateImagePrompt api)")
         (simp_all add: processFrame_settled_def map_timestamp_update)
  next
    case interval
    then show ?thesis by (simp add: intervalChanged_def)
  qed
  then show "map timestamp (frames (step e s)) = map timestamp (frames s)"
    and "tasks (step e s) = tasks s"
    and "controllers (step e s) = controllers s"
    by simp_all
qed

lemma finished_run:
  assumes "list_all (captureEvent k) evs" "k < length (tasks s)" "tasks s ! k = Finished"
  shows "map timestamp (frames (run evs s)) = map timestamp (frames s)
         \<and> tasks (run evs s) ! k = Finished"
  using assms
proof (induction evs arbitrary: s)
  case Nil
  then show ?case by simp
next
  case (Cons e evs)
  show ?case
  proof (cases "\<exists>img. e = Seeked k img")
    case True
    then obtain img where e: "e = Seeked k img" by blast
    from Cons.prems(3) have "step (Seeked k img) s = s" by (intro seeked_idle) simp
    with Cons e show ?thesis by (simp del: step.simps)
  next
    case False
    with Cons.prems(1) have keeps: "map timestamp (frames (step e s)) = map timestamp (frames s)"
      "tasks (step e s) = tasks s"
      by (simp_all add: analysis_event_keeps[of k e] del: step.simps)
    from Cons.prems keeps have "map timestamp (frames (run evs (step e s))) = map timestamp (frames (step e s))
         \<and> tasks (run evs (step e s)) ! k = Finished"
      by (intro Cons.IH) (simp_all del: step.simps)
    with keeps show ?thesis by (simp del: step.simps)
  qed
qed

lemma upt_min_Suc:
  "map f [0..<min (Suc c) (Suc n)] = f 0 # map (\<lambda>j. f (Suc j)) [0..<min c n]"
proof -
  have "[0..<Suc (min c n)] = 0 # map Suc [0..<min c n]"
    by (simp add: upt_conv_Cons map_Suc_upt del: upt_Suc)
  then show ?thesis by (simp add: comp_def del: upt_Suc)
qed

lemma capture_run:
  assumes "list_all (captureEvent k) evs"
    "k < length (tasks s)" "tasks s ! k = AwaitingSeek v" "\<not> aborted s (signal v)"
    "duration v = Num D" "1 \<le> loopInterval v" "real_of_int (time v) < D"
  shows "map timestamp (frames (run evs s))
           = map timestamp (frames s)
             @ map (\<lambda>j. time v + int j * loopInterval v)
                 [0..<min (seekCount k evs)
                          (nat \<lceil>(D - real_of_int (time v)) / real_of_int (loopInterval v)\<rceil>)]
         \<and> (nat \<lceil>(D - real_of_int (time v)) / real_of_int (loopInterval v)\<rceil> \<le> seekCount k evs
              \<longrightarrow> tasks (run evs s) ! k = Finished)"
  using assms
proof (induction evs arbitrary: s v)
  case Nil
  from Nil.prems have "0 < (D - real_of_int (time v)) / real_of_int (loopInterval v)" by simp
  then have "0 < \<lceil>(D - real_of_int (time v)) / real_of_int (loopInterval v)\<rceil>" by simp
  then show ?case by simp
next
  case (Cons e evs)
  let ?n = "nat \<lceil>(D - real_of_int (time v)) / real_of_int (loopInterval v)\<rceil>"
  from Cons.prems(1) have rest: "list_all (captureEvent k) evs" and e: "captureEvent k e"
    by simp_all
  show ?case
  proof (cases "\<exists>img. e = Seeked k img")
    case False
    with e have keeps: "map timestamp (frames (step e s)) = map timestamp (frames s)"
      "tasks (step e s) = tasks s" "controllers (step e s) = controllers s"
      by (simp_all add: analysis_event_keeps[of k e] del: step.simps)
    from False e have cnt: "seekCount k (e # evs) = seekCount k evs"
      by (cases e) auto
    have na: "\<not> aborted (step e s) (signal v)"
      using Cons.prems(4) keeps(3) by (simp add: aborted_def del: step.simps)
    from Cons.IH[OF rest _ _ na Cons.prems(5,6,7)] Cons.prems(2,3) keeps
    have "map timestamp (frames (run evs (step e s)))
           = map timestamp (frames (step e s))
             @ map (\<lambda>j. time v + int j * loopInterval v) [0..<min (seekCount k evs) ?n]
          \<and> (?n \<le> seekCount k evs \<longrightarrow> tasks (run evs (step e s)) ! k = Finished)"
      by (simp del: step.simps)
    with keeps cnt show ?thesis by (simp del: step.simps)
  next
    case True
    then obtain img where ev: "e = Seeked k img" by blast
    let ?s' = "step (Seeked k img) s"
    let ?v' = "v\<lparr>capturedCount := capturedCount v + 1, time := time v + loopInterval v\<rparr>"
    note st = seeked_step[OF Cons.prems(2,3), of img]
    have cnt: "seekCount k (e # evs) = Suc (seekCount k evs)" by (simp add: ev)
    have ts: "map timestamp (frames ?s') = map timestamp (frames s) @ [time v]"
      by (simp add: st(1) del: step.simps)
    have k': "k < length (tasks ?s')" using Cons.prems(2) by (simp only: st)
    show ?thesis
    proof (cases "real_of_int (time v + loopInterval v) < D")
      case True
      with Cons.prems have task: "tasks ?s' ! k = AwaitingSeek ?v'"
        by (simp add: st loopHead_def del: step.simps)
      have na: "\<not> aborted ?s' (signal ?v')"
        using Cons.prems(4) st(3) by (simp add: aborted_def del: step.simps)
      let ?n' = "nat \<lceil>(D - real_of_int (time ?v')) / real_of_int (loopInterval ?v')\<rceil>"
      have n: "?n = Suc ?n'"
        using ceiling_next[OF Cons.prems(6) True] by simp
      from Cons.IH[OF rest k' task na] Cons.prems(5,6) True
      have IH: "map timestamp (frames (run evs ?s'))
                  = map timestamp (frames ?s')
                    @ map (\<lambda>j. time ?v' + int j * loopInterval ?v') [0..<min (seekCount k evs) ?n']
                \<and> (?n' \<le> seekCount k evs \<longrightarrow> tasks (run evs ?s') ! k = Finished)"
        by simp
      have "map (\<lambda>j. time v + int j * loopInterval v) [0..<min (Suc (seekCount k evs)) (Suc ?n')]
              = time v # map (\<lambda>j. time v + int (Suc j) * loopInterval v) [0..<min (seekCount k evs) ?n']"
        using upt_min_Suc[of "\<lambda>j. time v + int j * loopInterval v" "seekCount k evs" ?n'] by simp
      also have "map (\<lambda>j. time v + int (Suc j) * loopInterval v) [0..<min (seekCount k evs) ?n']
              = map (\<lambda>j. time ?v' + int j * loopInterval ?v') [0..<min (seekCount k evs) ?n']"
        by (simp add: algebra_simps)
      finally have cut: "map (\<lambda>j. time v + int j * loopInterval v) [0..<min (Suc (seekCount k evs)) (Suc ?n')]
              = time v # map (\<lambda>j. time ?v' + int j * loopInterval ?v') [0..<min (seekCount k evs) ?n']" .
      have "run (e # evs) s = run evs ?s'" by (simp add: ev)
      then show ?thesis
        unfolding cnt n cut using IH ts by (simp del: step.simps)
    next
      case False
      with Cons.prems have task: "tasks ?s' ! k = Finished"
        by (simp add: st loopHead_def del: step.simps)
      from finished_run[OF rest k' task]
      have fin: "map timestamp (frames (run evs ?s')) = map timestamp (frames ?s')"
        "tasks (run evs ?s') ! k = Finished"
        by simp_all
      have n: "?n = Suc 0"
        using ceiling_last[OF Cons.prems(6,7) False] .
      have "run (e # evs) s = run evs ?s'" by (simp add: ev)
      then show ?thesis
        unfolding cnt n using fin ts by (simp del: step.simps)
    qed
  qed
qed

text \<open>
  Claim C2, as the code has it. For every configured interval (the loop uses
  \<open>max 1\<close> of it) and every video of finite duration \<open>D > 0\<close>, a capture phase that is
  not cancelled emits exactly \<open>\<lceil>D / interval\<rceil>\<close> frames once that many seeks have
  completed, and then has finished, whatever the analysis phase does in between.
  The timestamps are \<open>0, interval, 2 * interval, ...\<close>: exactly the multiples of the
  interval strictly below \<open>D\<close>. The number is \<open>\<lfloor>D / interval\<rfloor>\<close> when \<open>D\<close> is a
  multiple of the interval and \<open>\<lfloor>D / interval\<rfloor> + 1\<close> otherwise; it is at least 1.
  When the duration is zero or NaN, no frame is emitted.
\<close>

theorem capture_emits_every_multiple_below_duration:
  fixes s :: App and D :: real and evs :: "Event list" and d :: jsnum
  defines "i \<equiv> max 1 (interval (config s))"
    and "k \<equiv> length (tasks s)"
    and "n \<equiv> nat \<lceil>D / real_of_int (max 1 (interval (config s)))\<rceil>"
    and "s' \<equiv> run (StartAnalysis True # MetadataLoaded (length (tasks s)) (Num D) # evs) s"
  assumes src: "videoSrc s \<noteq> None" and D: "0 < D"
    and evs: "list_all (captureEvent (length (tasks s))) evs"
    and enough: "n \<le> seekCount (length (tasks s)) evs"
  shows "length (frames s') = n
         \<and> map timestamp (frames s') = map (\<lambda>j. int j * i) [0..<n]
         \<and> tasks s' ! k = Finished
         \<and> 1 \<le> n
         \<and> (\<forall>j<n. real_of_int (int j * i) < D)
         \<and> D \<le> real_of_int (int n * i)
         \<and> n = (if D / real_of_int i = of_int \<lfloor>D / real_of_int i\<rfloor>
                 then nat \<lfloor>D / real_of_int i\<rfloor> else nat \<lfloor>D / real_of_int i\<rfloor> + 1)
         \<and> (d = Num 0 \<or> d = NaN \<longrightarrow>
              frames (run (StartAnalysis True # MetadataLoaded k d # evs) s) = [])"
proof -
  let ?s1 = "step (StartAnalysis True) s"
  let ?c = "length (controllers s)"
  let ?v = "\<lparr>signal = ?c, duration = Num D, loopInterval = i,
             totalFrames = js_floor (js_div (Num D) (Num (real_of_int i))),
             capturedCount = 0, time = 0\<rparr>"
  note st = startAnalysis_begins[OF src]
  have i1: "1 \<le> i" by (simp add: i_def)
  have na: "\<not> aborted ?s1 ?c" by (simp add: aborted_def st(3) del: step.simps)
  have head: "loopHead ?s1 ?v = AwaitingSeek ?v"
    using D na by (simp add: loopHead_def del: step.simps)
  have s2: "step (MetadataLoaded k (Num D)) ?s1 = ?s1\<lparr>tasks := tasks s @ [AwaitingSeek ?v]\<rparr>"
    unfolding k_def using metadata_resumes[OF st(4), of "Num D"] head
    by (simp add: i_def del: step.simps)
  let ?s2 = "?s1\<lparr>tasks := tasks s @ [AwaitingSeek ?v]\<rparr>"
  have run: "s' = run evs ?s2"
    unfolding s'_def k_def[symmetric] using s2 by (simp del: step.simps)
  have evs': "list_all (captureEvent k) evs" using evs by (simp add: k_def)
  have "map timestamp (frames (run evs ?s2))
          = map timestamp (frames ?s2)
            @ map (\<lambda>j. time ?v + int j * loopInterval ?v)
                [0..<min (seekCount k evs)
                         (nat \<lceil>(D - real_of_int (time ?v)) / real_of_int (loopInterval ?v)\<rceil>)]
        \<and> (nat \<lceil>(D - real_of_int (time ?v)) / real_of_int (loopInterval ?v)\<rceil> \<le> seekCount k evs
             \<longrightarrow> tasks (run evs ?s2) ! k = Finished)"
    using evs' D i1 na
    by (intro capture_run) (simp_all add: k_def aborted_def st(3) del: step.simps)
  then have ts: "map timestamp (frames s') = map (\<lambda>j. int j * i) [0..<n]"
    and fin: "tasks s' ! k = Finished"
    using enough by (simp_all add: run st n_def i_def k_def min_absorb2 del: step.simps)
  from ts have len: "length (frames s') = n"
    using length_map[of timestamp "frames s'"] by simp
  have n: "n = nat \<lceil>D / real_of_int i\<rceil>" by (simp add: n_def i_def)
  have c1: "1 \<le> n" and c2: "\<forall>j<n. real_of_int (int j * i) < D"
    and c3: "D \<le> real_of_int (int n * i)"
    and c4: "n = (if D / real_of_int i = of_int \<lfloor>D / real_of_int i\<rfloor>
                 then nat \<lfloor>D / real_of_int i\<rfloor> else nat \<lfloor>D / real_of_int i\<rfloor> + 1)"
    unfolding n using ceiling_count[OF i1 D] by blast+
  have empty: "d = Num 0 \<or> d = NaN \<longrightarrow>
      frames (run (StartAnalysis True # MetadataLoaded k d # evs) s) = []"
  proof
    assume d: "d = Num 0 \<or> d = NaN"
    let ?w = "\<lparr>signal = ?c, duration = d, loopInterval = max 1 (interval (config s)),
               totalFrames = js_floor (js_div d (Num (real_of_int (max 1 (interval (config s)))))),
               capturedCount = 0, time = 0\<rparr>"
    let ?s3 = "?s1\<lparr>tasks := tasks s @ [Finished]\<rparr>"
    from d have h: "loopHead ?s1 ?w = Finished" by (auto simp add: loopHead_def simp del: step.simps)
    have m: "step (MetadataLoaded k d) ?s1 = ?s3"
      unfolding k_def using metadata_resumes[OF st(4), of d] h by (simp del: step.simps)
    have "map timestamp (frames (run evs ?s3)) = map timestamp (frames ?s3)
          \<and> tasks (run evs ?s3) ! k = Finished"
      using evs' by (intro finished_run) (simp_all add: k_def del: step.simps)
    then have "map timestamp (frames (run evs ?s3)) = []"
      by (simp add: st del: step.simps)
    with m show "frames (run (StartAnalysis True # MetadataLoaded k d # evs) s) = []"
      by (simp del: step.simps)
  qed
  from len ts fin c1 c2 c3 c4 empty show ?thesis
    by blast
qed

theorem capture_emits_every_multiple_below_duration_witness:
  "videoSrc fileChosen \<noteq> None \<and> (0::real) < 10
   \<and> list_all (captureEvent (length (tasks fileChosen))) analysedMeanwhile
   \<and> nat \<lceil>10 / real_of_int (max 1 (interval (config fileChosen)))\<rceil> = 4
   \<and> seekCount (length (tasks fileChosen)) analysedMeanwhile = 5
   \<and> map timestamp
        (frames (run (StartAnalysis True # MetadataLoaded (length (tasks fileChosen)) (Num 10)
                      # analysedMeanwhile) fileChosen)) = [0, 3, 6, 9]
   \<and> frames (run (StartAnalysis True # MetadataLoaded (length (tasks fileChosen)) (Num 0)
                      # analysedMeanwhile) fileChosen) = []
   \<and> frames (run (StartAnalysis True # MetadataLoaded (length (tasks fileChosen)) NaN
                      # analysedMeanwhile) fileChosen) = []"
proof -
  have fc: "fileChosen = initApp\<lparr>videoFile := Some ''clip.mp4'', videoSrc := Some ''blob:clip''\<rparr>"
    by (simp add: fileChosen_def handleFileSelected_def reconcile_def initApp_def Let_def)
  have a: "videoSrc fileChosen \<noteq> None" by (simp add: fc)
  have l: "length (tasks fileChosen) = 0" by (simp add: fc initApp_def)
  have e: "list_all (captureEvent (length (tasks fileChosen))) analysedMeanwhile"
    by (simp add: l analysedMeanwhile_def)
  have n: "nat \<lceil>10 / real_of_int (max 1 (interval (config fileChosen)))\<rceil> = 4"
    by (simp add: fc initApp_def)
  have sc: "seekCount (length (tasks fileChosen)) analysedMeanwhile = 5"
    by (simp add: l analysedMeanwhile_def)
  have b: "nat \<lceil>10 / real_of_int (max 1 (interval (config fileChosen)))\<rceil>
             \<le> seekCount (length (tasks fileChosen)) analysedMeanwhile"
    by (simp add: n sc)
  have i: "max 1 (interval (config fileChosen)) = 3" by (simp add: fc initApp_def)
  have u: "[0..<4] = [0, 1, 2, 3]" by (simp add: upt_rec)
  note t1 = capture_emits_every_multiple_below_duration[OF a _ e b, of "Num 0"]
  note t2 = capture_emits_every_multiple_below_duration[OF a _ e b, of NaN]
  have c: "map timestamp
        (frames (run (StartAnalysis True # MetadataLoaded (length (tasks fileChosen)) (Num 10)
                      # analysedMeanwhile) fileChosen)) = [0, 3, 6, 9]"
    using t1 by (simp add: n i u del: step.simps run_Cons)
  from t1 t2 a e n sc c show ?thesis by simp
qed

text \<open>
  The claim C2 as stated fails: for a clip of 10 seconds at the interval 3 the capture
  phase emits 4 frames, at 0, 3, 6 and 9 seconds, and not \<open>\<lfloor>10 / 3\<rfloor> = 3\<close>. The fifth
  seek of the example does nothing: the loop has finished.
\<close>

theorem capture_emits_floor_counterexample:
  "map timestamp (frames wholeClip) = [0, 3, 6, 9]
   \<and> length (frames wholeClip) = 4
   \<and> tasks wholeClip = [Finished]
   \<and> nat \<lfloor>(10::real) / 3\<rfloor> = 3
   \<and> length (frames wholeClip) \<noteq> nat \<lfloor>(10::real) / 3\<rfloor>"
  by (simp add: wholeClip_def eval_defs)

section \<open>Selecting a file while a capture loop is in flight\<close>

lemma handleFileSelected_state:
  "handleFileSelected name url s
     = s\<lparr>videoFile := Some name, videoSrc := Some url, frames := [], progress := Num 0,
         isProcessing := False, timer := None\<rparr>"
  by (simp add: handleFileSelected_def reconcile_idle)

lemma reset_state:
  "reset s
     = s\<lparr>videoFile := None, videoSrc := None, frames := [], progress := Num 0,
         isProcessing := False, controllers := abortCurrent s, timer := None\<rparr>"
  by (simp add: reset_def reconcile_idle)

text \<open>
  Claim C10. \<open>handleFileSelected\<close> clears the frame list, the progress and the
  processing flag, and leaves every abort controller and the reference to the current
  one as they are. So a capture loop that is still waiting for a seek and whose
  signal is not aborted is not halted: its next frames, up to the end of its video,
  are appended to the freshly cleared list. \<open>reset\<close>, in contrast, aborts the current
  controller: a loop holding its signal appends at most the frame of the seek already
  under way and then stops.
\<close>

theorem file_selection_leaves_capture_running:
  assumes k: "k < length (tasks s)" and task: "tasks s ! k = AwaitingSeek v"
    and c: "signal v < length (controllers s)" and na: "\<not> aborted s (signal v)"
    and dur: "duration v = Num D" and i: "1 \<le> loopInterval v"
    and t: "real_of_int (time v) < D"
  shows "frames (step (FileSelected name url) s) = []
         \<and> progress (step (FileSelected name url) s) = Num 0
         \<and> \<not> isProcessing (step (FileSelected name url) s)
         \<and> controllers (step (FileSelected name url) s) = controllers s
         \<and> abortControllerRef (step (FileSelected name url) s) = abortControllerRef s
         \<and> tasks (step (FileSelected name url) s) = tasks s
         \<and> \<not> aborted (step (FileSelected name url) s) (signal v)
         \<and> frames (run (map (Seeked k) imgs) (step (FileSelected name url) s))
             = capturedFrames (nextUuid s) (time v) (loopInterval v)
                 (take (nat \<lceil>(D - real_of_int (time v)) / real_of_int (loopInterval v)\<rceil>) imgs)
         \<and> (abortControllerRef s = Some (signal v) \<longrightarrow>
               aborted (step Reset s) (signal v)
               \<and> frames (step Reset s) = []
               \<and> frames (run (map (Seeked k) imgs) (step Reset s))
                   = capturedFrames (nextUuid s) (time v) (loopInterval v) (take 1 imgs))"
proof -
  let ?s1 = "s\<lparr>videoFile := Some name, videoSrc := Some url, frames := [], progress := Num 0,
               isProcessing := False, timer := None\<rparr>"
  have s1: "step (FileSelected name url) s = ?s1"
    by (simp add: handleFileSelected_state)
  have na1: "\<not> aborted ?s1 (signal v)" using na by (simp add: aborted_def)
  have "frames (run (map (Seeked k) imgs) ?s1)
          = frames ?s1 @ capturedFrames (nextUuid ?s1) (time v) (loopInterval v)
              (take (nat \<lceil>(D - real_of_int (time v)) / real_of_int (loopInterval v)\<rceil>) imgs)
        \<and> (nat \<lceil>(D - real_of_int (time v)) / real_of_int (loopInterval v)\<rceil> \<le> length imgs
             \<longrightarrow> tasks (run (map (Seeked k) imgs) ?s1) ! k = Finished)"
    using k task na1 dur i t by (intro seeked_run) simp_all
  then have goes_on: "frames (run (map (Seeked k) imgs) ?s1)
          = capturedFrames (nextUuid s) (time v) (loopInterval v)
              (take (nat \<lceil>(D - real_of_int (time v)) / real_of_int (loopInterval v)\<rceil>) imgs)"
    by simp
  have halted: "abortControllerRef s = Some (signal v) \<longrightarrow>
               aborted (step Reset s) (signal v)
               \<and> frames (step Reset s) = []
               \<and> frames (run (map (Seeked k) imgs) (step Reset s))
                   = capturedFrames (nextUuid s) (time v) (loopInterval v) (take 1 imgs)"
  proof
    assume ref: "abortControllerRef s = Some (signal v)"
    let ?s2 = "s\<lparr>videoFile := None, videoSrc := None, frames := [], progress := Num 0,
                 isProcessing := False, controllers := (controllers s)[signal v := True],
                 timer := None\<rparr>"
    have s2: "step Reset s = ?s2"
      using ref by (simp add: reset_state abortCurrent_def)
    have ab: "aborted ?s2 (signal v)" using c by (simp add: aborted_def)
    have "frames (run (map (Seeked k) imgs) ?s2)
            = capturedFrames (nextUuid s) (time v) (loopInterval v) (take 1 imgs)"
    proof (cases imgs)
      case Nil
      then show ?thesis by simp
    next
      case (Cons img rest)
      have k2: "k < length (tasks ?s2)" and task2: "tasks ?s2 ! k = AwaitingSeek v"
        using k task by simp_all
      note st = seeked_step[OF k2 task2, of img]
      have "tasks (step (Seeked k img) ?s2) ! k = Finished"
        using ab by (simp add: st(5) loopHead_def del: step.simps)
      then have "run (map (Seeked k) rest) (step (Seeked k img) ?s2) = step (Seeked k img) ?s2"
        by (intro seeked_idle_run) simp
      then show ?thesis
        using Cons by (simp add: st(1) del: step.simps)
    qed
    with ab show "aborted (step Reset s) (signal v)
               \<and> frames (step Reset s) = []
               \<and> frames (run (map (Seeked k) imgs) (step Reset s))
                   = capturedFrames (nextUuid s) (time v) (loopInterval v) (take 1 imgs)"
      unfolding s2 by simp
  qed
  from na1 goes_on halted show ?thesis
    unfolding s1 by simp
qed

theorem file_selection_leaves_capture_running_witness:
  "0 < length (tasks twoCaptured)
   \<and> tasks twoCaptured ! 0
       = AwaitingSeek \<lparr>signal = 0, duration = Num 10, loopInterval = 3, totalFrames = Num 3,
                        capturedCount = 2, time = 6\<rparr>
   \<and> \<not> aborted twoCaptured 0
   \<and> abortControllerRef twoCaptured = Some 0
   \<and> frames (step (FileSelected ''other.mp4'' ''blob:other'') twoCaptured) = []
   \<and> map timestamp (frames (run (map (Seeked 0) [still, still, still])
                              (step (FileSelected ''other.mp4'' ''blob:other'') twoCaptured)))
        = [6, 9]
   \<and> map timestamp (frames (run (map (Seeked 0) [still, still, still]) (step Reset twoCaptured)))
        = [6]"
proof -
  let ?v = "\<lparr>signal = 0, duration = Num 10, loopInterval = 3, totalFrames = Num 3,
             capturedCount = 2, time = 6\<rparr>"
  have a: "0 < length (tasks twoCaptured)" "tasks twoCaptured ! 0 = AwaitingSeek ?v"
    by (simp_all add: twoCaptured_state)
  have b: "signal ?v < length (controllers twoCaptured)" "\<not> aborted twoCaptured (signal ?v)"
    by (simp_all add: twoCaptured_state aborted_def)
  have d: "duration ?v = Num 10" "1 \<le> loopInterval ?v" "real_of_int (time ?v) < 10"
    by simp_all
  have r: "abortControllerRef twoCaptured = Some (signal ?v)"
    by (simp add: twoCaptured_state)
  have n: "nat \<lceil>((10::real) - real_of_int (time ?v)) / real_of_int (loopInterval ?v)\<rceil> = 2"
    by simp
  note th = file_selection_leaves_capture_running[OF a b d,
      of "''other.mp4''" "''blob:other''" "[still, still, still]"]
  have e: "map timestamp (frames (run (map (Seeked 0) [still, still, still])
                              (step (FileSelected ''other.mp4'' ''blob:other'') twoCaptured)))
        = [6, 9]"
    using th by (simp only: n) (simp add: numeral_2_eq_2)
  have f: "map timestamp (frames (run (map (Seeked 0) [still, still, still]) (step Reset twoCaptured)))
        = [6]"
    using th r by (simp del: step.simps run_Cons)
  from th a b r e f show ?thesis by simp
qed

section \<open>Progress\<close>

text \<open>
  Claim C4 fails on the code. The capture phase divides the number of captured frames
  by \<open>totalFrames = \<lfloor>duration / interval\<rfloor>\<close>, while the loop captures
  \<open>\<lceil>duration / interval\<rceil>\<close> frames. For a clip of 5 seconds at the interval 3,
  \<open>totalFrames\<close> is 1 and two frames are captured: progress is 50 after the first and
  exactly 100 after the second, while both frames are still PENDING. Progress also
  decreases: for a clip of 2 seconds it is Infinity after the capture and 100 when
  the analysis is done, and when the only captured frame of a longer clip has been
  analysed before the next seek completes, progress is 100 and then falls to
  \<open>100 / 3\<close> with the next captured frame.
\<close>

theorem progress_100_with_pending_frames:
  "progress (run (openClip 5 @ [Seeked 0 still]) initApp) = Num 50
   \<and> progress shortClip = Num 100
   \<and> map status (frames shortClip) = [PENDING, PENDING]
   \<and> isProcessing shortClip
   \<and> progress tinyClip = PosInfinity
   \<and> progress (run [TimerFired, Settled 0 describing] tinyClip) = Num 100
   \<and> progress analysedEarly = Num 100
   \<and> map status (frames analysedEarly) = [COMPLETED]
   \<and> progress (step (Seeked 0 still) analysedEarly) = Num (100 / 3)
   \<and> map status (frames (step (Seeked 0 still) analysedEarly)) = [COMPLETED, PENDING]"
proof -
  have a: "progress (run (openClip 5 @ [Seeked 0 still]) initApp) = Num 50"
    by (simp add: eval_defs)
  have b: "progress shortClip = Num 100" "map status (frames shortClip) = [PENDING, PENDING]"
    "isProcessing shortClip"
    by (simp_all add: shortClip_def eval_defs)
  have c: "progress tinyClip = PosInfinity"
    by (simp add: tinyClip_def eval_defs)
  have d: "progress (run [TimerFired, Settled 0 describing] tinyClip) = Num 100"
    by (simp add: tinyClip_def eval_defs generateImagePrompt_describing)
  have e: "progress analysedEarly = Num 100" "map status (frames analysedEarly) = [COMPLETED]"
    by (simp_all add: analysedEarly_def eval_defs generateImagePrompt_describing)
  have f: "progress (step (Seeked 0 still) analysedEarly) = Num (100 / 3)"
    "map status (frames (step (Seeked 0 still) analysedEarly)) = [COMPLETED, PENDING]"
    by (simp_all add: analysedEarly_def eval_defs generateImagePrompt_describing)
  from a b c d e f show ?thesis by simp
qed

text \<open>
  Claim C6 fails on the code. When the interval exceeds the duration, exactly one
  frame, at time 0, is captured, as the claim says; but nothing keeps \<open>totalFrames\<close>
  at 1 or more. For a clip of 2 seconds at the interval 3, \<open>totalFrames\<close> is
  \<open>\<lfloor>2 / 3\<rfloor> = 0\<close>, the progress computation divides 1 by 0, and progress is
  Infinity.
\<close>

theorem progress_division_by_zero:
  "tasks (run (openClip 2) initApp)
     = [AwaitingSeek \<lparr>signal = 0, duration = Num 2, loopInterval = 3, totalFrames = Num 0,
                      capturedCount = 0, time = 0\<rparr>]
   \<and> map timestamp (frames tinyClip) = [0]
   \<and> tasks tinyClip = [Finished]
   \<and> js_div (Num 1) (Num 0) = PosInfinity
   \<and> progress tinyClip = PosInfinity"
  by (simp add: tinyClip_def eval_defs)


end
